theory Spec2Isabelle
  imports Main "HOL-Library.Multiset"
begin

section \<open>The interval heap of \<^verbatim>\<open>src/cmc/intervalheap.h\<close>\<close>

text \<open>
  The header generates, for a prefix \<^verbatim>\<open>PFX\<close> and an element type \<^verbatim>\<open>V\<close>, a double-ended
  priority queue stored in an array of two-slot nodes. The embedding below instantiates the
  prefix as \<^verbatim>\<open>ih\<close>, keeps \<^verbatim>\<open>V\<close> as a type variable with a zero value (the C literal
  \<^verbatim>\<open>(V){ 0 }\<close>), and passes the comparison function of the value table as the field
  \<open>cmp\<close> of the heap.

  Quantities of type \<^verbatim>\<open>size_t\<close> are natural numbers. Where an operand comes from the
  caller or is multiplied (\<^verbatim>\<open>capacity * 4\<close>, \<^verbatim>\<open>capacity + 1\<close>, \<^verbatim>\<open>cursor + steps\<close>,
  \<^verbatim>\<open>cursor + 1\<close>) the reduction modulo \<open>2 ^ 64\<close> is written out. The counters
  \<^verbatim>\<open>size\<close> and \<^verbatim>\<open>count\<close> are incremented without reduction, and the child indices
  \<^verbatim>\<open>2 * index + 1\<close> and \<^verbatim>\<open>2 * index + 2\<close> are computed without reduction: they are
  bounded by twice the number of allocated nodes, which is below \<open>2 ^ 64\<close>. A subtraction
  \<^verbatim>\<open>size - 1\<close> is only evaluated by the source when at least one node is in use.

  The buffer is a list of nodes whose length is the allocated capacity. Reading or writing
  past the end is undefined behaviour in C; the theorems below are stated for heaps on
  which every access is in range.
\<close>

subsection \<open>Data\<close>

datatype 'v node = Node (data0: 'v) (data1: 'v)

text \<open>\<^verbatim>\<open>node.data[k]\<close> for \<open>k\<close> in \<open>{0, 1}\<close>.\<close>

definition data :: "'v node \<Rightarrow> nat \<Rightarrow> 'v" where
  "data nd k = (if k = 0 then data0 nd else data1 nd)"

record 'v heap =
  buffer :: "'v node list"
  capacity :: nat
  size_h :: nat
  count :: nat
  cmp :: "'v \<Rightarrow> 'v \<Rightarrow> int"

record iter =
  cursor :: nat
  start :: bool
  end' :: bool

definition UINT64_MAX :: nat where
  "UINT64_MAX = 2 ^ 64 - 1"

text \<open>Arithmetic on \<^verbatim>\<open>size_t\<close> wraps at \<open>2 ^ 64\<close>.\<close>

definition wrap :: "nat \<Rightarrow> nat" where
  "wrap n = n mod 2 ^ 64"

text \<open>The assignments \<^verbatim>\<open>buf[i].data[0] = v\<close> and \<^verbatim>\<open>buf[i].data[1] = v\<close>.\<close>

definition set_data0 :: "'v node list \<Rightarrow> nat \<Rightarrow> 'v \<Rightarrow> 'v node list" where
  "set_data0 buf i v = buf[i := Node v (data1 (buf ! i))]"

definition set_data1 :: "'v node list \<Rightarrow> nat \<Rightarrow> 'v \<Rightarrow> 'v node list" where
  "set_data1 buf i v = buf[i := Node (data0 (buf ! i)) v]"

text \<open>\<^verbatim>\<open>_heap_->buffer[i / 2].data[i % 2]\<close>: the element at linear position \<open>i\<close>.\<close>

definition elem :: "'v heap \<Rightarrow> nat \<Rightarrow> 'v" where
  "elem h i = data (buffer h ! (i div 2)) (i mod 2)"

subsection \<open>Allocation\<close>

text \<open>
  The allocator is a collaborator of the heap. A call of \<^verbatim>\<open>malloc\<close> or \<^verbatim>\<open>calloc\<close> is
  represented by a flag saying whether it succeeded. A call of \<^verbatim>\<open>realloc\<close> is represented
  by \<open>None\<close> when it returns \<^verbatim>\<open>NULL\<close> and by \<open>Some fresh\<close> when it succeeds, where
  \<open>fresh i\<close> is the indeterminate content of node \<open>i\<close> of the memory that was added.
  The byte counts handed to the allocator are not modelled.
\<close>

definition realloc_nodes :: "'v node list \<Rightarrow> nat \<Rightarrow> (nat \<Rightarrow> 'v node) \<Rightarrow> 'v node list" where
  "realloc_nodes buf n fresh = map (\<lambda>i. if i < length buf then buf ! i else fresh i) [0..<n]"

text \<open>
  \<^verbatim>\<open>memset(buf + off, 0, sizeof(node) * n)\<close>. Positions past the end of the buffer are
  not represented.
\<close>

definition memset_nodes :: "('v::zero) node list \<Rightarrow> nat \<Rightarrow> nat \<Rightarrow> 'v node list" where
  "memset_nodes buf off n =
     map (\<lambda>i. if off \<le> i \<and> i < off + n then Node 0 0 else buf ! i) [0..<length buf]"

definition ih_new ::
  "bool \<Rightarrow> bool \<Rightarrow> nat \<Rightarrow> ('v \<Rightarrow> 'v \<Rightarrow> int) option \<Rightarrow> ('v::zero) heap option" where
  "ih_new malloc_ok calloc_ok cap f_val =
     (if cap = 0 \<or> cap = UINT64_MAX then None
      else case f_val of
        None \<Rightarrow> None
      | Some f \<Rightarrow>
          if \<not> malloc_ok then None
          else
            let cap = (if cap mod 2 = 0 then cap div 2 else (cap + 1) div 2) in
            if \<not> calloc_ok then None
            else Some \<lparr>buffer = replicate cap (Node 0 0), capacity = cap,
                       size_h = 0, count = 0, cmp = f\<rparr>)"

subsection \<open>State queries\<close>

definition ih_empty :: "'v heap \<Rightarrow> bool" where
  "ih_empty h = (count h = 0)"

definition ih_full :: "'v heap \<Rightarrow> bool" where
  "ih_full h = (size_h h \<ge> capacity h \<and> count h mod 2 = 0)"

definition ih_count :: "'v heap \<Rightarrow> nat" where
  "ih_count h = count h"

definition ih_capacity :: "'v heap \<Rightarrow> nat" where
  "ih_capacity h = capacity h"

subsection \<open>Resizing\<close>

definition ih_resize ::
  "(nat \<Rightarrow> 'v node) option \<Rightarrow> ('v::zero) heap \<Rightarrow> nat \<Rightarrow> bool \<times> 'v heap" where
  "ih_resize ra h cap =
     (if ih_capacity h = cap then (True, h)
      else if cap < ih_count h then (False, h)
      else
        let ncap = (if cap mod 2 = 0 then cap div 2 else wrap (cap + 1) div 2) in
        case ra of
          None \<Rightarrow> (False, h)
        | Some fresh \<Rightarrow>
            let new_buffer = realloc_nodes (buffer h) ncap fresh;
                new_buffer = memset_nodes new_buffer (capacity h) (capacity h)
            in (True, h\<lparr>buffer := new_buffer, capacity := ncap\<rparr>))"

subsection \<open>The four restoration passes\<close>

text \<open>
  Each pass is a loop over an index into the buffer. The loop only writes to the buffer;
  \<^verbatim>\<open>size\<close>, \<^verbatim>\<open>count\<close> and the comparison are read and never written, so they are
  parameters of the loop function. The pointers \<^verbatim>\<open>curr_node\<close>, \<^verbatim>\<open>parent\<close> and
  \<^verbatim>\<open>child_node\<close> always point at \<^verbatim>\<open>buffer[index]\<close>, \<^verbatim>\<open>buffer[P_index]\<close> and
  \<^verbatim>\<open>buffer[child]\<close>, and are represented by these indices.
\<close>

function float_up_max_loop ::
  "('v \<Rightarrow> 'v \<Rightarrow> int) \<Rightarrow> nat \<Rightarrow> nat \<Rightarrow> 'v node list \<Rightarrow> nat \<Rightarrow> 'v node list" where
  "float_up_max_loop f sz cnt buf index =
     (if index > 0 then
        let P_index = (index - 1) div 2;
            curr_node = buf ! index;
            parent = buf ! P_index
        in
          if index = sz - 1 \<and> cnt mod 2 \<noteq> 0 then
            if f (data0 curr_node) (data1 parent) < 0 then buf
            else float_up_max_loop f sz cnt
                   (buf[index := Node (data1 parent) (data1 curr_node),
                        P_index := Node (data0 parent) (data0 curr_node)]) P_index
          else
            if f (data1 curr_node) (data1 parent) < 0 then buf
            else float_up_max_loop f sz cnt
                   (buf[index := Node (data0 curr_node) (data1 parent),
                        P_index := Node (data0 parent) (data1 curr_node)]) P_index
      else buf)"
  by pat_completeness auto
termination
  by (relation "measure (\<lambda>(f, sz, cnt, buf, index). index)") auto

declare float_up_max_loop.simps [simp del]

definition ih_impl_float_up_max :: "'v heap \<Rightarrow> 'v heap" where
  "ih_impl_float_up_max h =
     h\<lparr>buffer := float_up_max_loop (cmp h) (size_h h) (count h) (buffer h) (size_h h - 1)\<rparr>"

function float_up_min_loop ::
  "('v \<Rightarrow> 'v \<Rightarrow> int) \<Rightarrow> 'v node list \<Rightarrow> nat \<Rightarrow> 'v node list" where
  "float_up_min_loop f buf index =
     (if index > 0 then
        let P_index = (index - 1) div 2;
            curr_node = buf ! index;
            parent = buf ! P_index
        in
          if f (data0 curr_node) (data0 parent) \<ge> 0 then buf
          else float_up_min_loop f
                 (buf[index := Node (data0 parent) (data1 curr_node),
                      P_index := Node (data0 curr_node) (data1 parent)]) P_index
      else buf)"
  by pat_completeness auto
termination
  by (relation "measure (\<lambda>(f, buf, index). index)") auto

declare float_up_min_loop.simps [simp del]

definition ih_impl_float_up_min :: "'v heap \<Rightarrow> 'v heap" where
  "ih_impl_float_up_min h =
     h\<lparr>buffer := float_up_min_loop (cmp h) (buffer h) (size_h h - 1)\<rparr>"

text \<open>The child that the max-side descent compares with.\<close>

definition max_child ::
  "('v \<Rightarrow> 'v \<Rightarrow> int) \<Rightarrow> nat \<Rightarrow> nat \<Rightarrow> 'v node list \<Rightarrow> nat \<Rightarrow> nat" where
  "max_child f sz cnt buf index =
     (let L_index = index * 2 + 1;
          R_index = index * 2 + 2
      in
        if R_index < sz then
          if R_index = sz - 1 \<and> cnt mod 2 \<noteq> 0 then
            (if f (data1 (buf ! L_index)) (data0 (buf ! R_index)) > 0 then L_index else R_index)
          else
            (if f (data1 (buf ! L_index)) (data1 (buf ! R_index)) > 0 then L_index else R_index)
        else L_index)"

lemma max_child_bounds:
  "2 * index + 1 < sz \<Longrightarrow>
   index < max_child f sz cnt buf index \<and> max_child f sz cnt buf index < sz"
  by (simp add: max_child_def Let_def)

text \<open>Swapping the two slots of a node when they are inverted.\<close>

definition fix_node :: "('v \<Rightarrow> 'v \<Rightarrow> int) \<Rightarrow> 'v node \<Rightarrow> 'v node" where
  "fix_node f nd = (if f (data0 nd) (data1 nd) > 0 then Node (data1 nd) (data0 nd) else nd)"

function float_down_max_loop ::
  "('v \<Rightarrow> 'v \<Rightarrow> int) \<Rightarrow> nat \<Rightarrow> nat \<Rightarrow> 'v node list \<Rightarrow> nat \<Rightarrow> 'v node list" where
  "float_down_max_loop f sz cnt buf index =
     (if 2 * index + 1 \<ge> sz then buf
      else
        let child = max_child f sz cnt buf index;
            curr_node = buf ! index;
            child_node = buf ! child
        in
          if child = sz - 1 \<and> cnt mod 2 \<noteq> 0 then
            if f (data1 curr_node) (data0 child_node) \<ge> 0 then buf
            else float_down_max_loop f sz cnt
                   (buf[child := Node (data1 curr_node) (data1 child_node),
                        index := Node (data0 curr_node) (data0 child_node)]) child
          else
            if f (data1 curr_node) (data1 child_node) \<ge> 0 then buf
            else float_down_max_loop f sz cnt
                   (buf[child := fix_node f (Node (data0 child_node) (data1 curr_node)),
                        index := Node (data0 curr_node) (data1 child_node)]) child)"
  by pat_completeness auto
termination
  apply (relation "measure (\<lambda>(f, sz, cnt, buf, index). sz - index)")
    apply simp
  subgoal for f sz cnt buf index x
    using max_child_bounds [of index sz f cnt buf] by (simp only: in_measure prod.case; arith)
  subgoal for f sz cnt buf index x
    using max_child_bounds [of index sz f cnt buf] by (simp only: in_measure prod.case; arith)
  done

declare float_down_max_loop.simps [simp del]

definition ih_impl_float_down_max :: "'v heap \<Rightarrow> 'v heap" where
  "ih_impl_float_down_max h =
     h\<lparr>buffer := float_down_max_loop (cmp h) (size_h h) (count h) (buffer h) 0\<rparr>"

definition min_child ::
  "('v \<Rightarrow> 'v \<Rightarrow> int) \<Rightarrow> nat \<Rightarrow> 'v node list \<Rightarrow> nat \<Rightarrow> nat" where
  "min_child f sz buf index =
     (let L_index = index * 2 + 1;
          R_index = index * 2 + 2
      in
        if R_index < sz then
          (if f (data0 (buf ! L_index)) (data0 (buf ! R_index)) < 0 then L_index else R_index)
        else L_index)"

lemma min_child_bounds:
  "2 * index + 1 < sz \<Longrightarrow>
   index < min_child f sz buf index \<and> min_child f sz buf index < sz"
  by (simp add: min_child_def Let_def)

function float_down_min_loop ::
  "('v \<Rightarrow> 'v \<Rightarrow> int) \<Rightarrow> nat \<Rightarrow> nat \<Rightarrow> 'v node list \<Rightarrow> nat \<Rightarrow> 'v node list" where
  "float_down_min_loop f sz cnt buf index =
     (if 2 * index + 1 \<ge> sz then buf
      else
        let child = min_child f sz buf index;
            curr_node = buf ! index;
            child_node = buf ! child
        in
          if f (data0 curr_node) (data0 child_node) < 0 then buf
          else
            let child_node' = Node (data0 curr_node) (data1 child_node);
                child_node' =
                  (if child \<noteq> sz - 1 \<or> cnt mod 2 = 0 then fix_node f child_node'
                   else child_node')
            in float_down_min_loop f sz cnt
                 (buf[child := child_node',
                      index := Node (data0 child_node) (data1 curr_node)]) child)"
  by pat_completeness auto
termination
  apply (relation "measure (\<lambda>(f, sz, cnt, buf, index). sz - index)")
    apply simp
  subgoal for f sz cnt buf index x
    using min_child_bounds [of index sz f buf] by (simp only: in_measure prod.case; arith)
  done

declare float_down_min_loop.simps [simp del]

definition ih_impl_float_down_min :: "'v heap \<Rightarrow> 'v heap" where
  "ih_impl_float_down_min h =
     h\<lparr>buffer := float_down_min_loop (cmp h) (size_h h) (count h) (buffer h) 0\<rparr>"

subsection \<open>Insertion and removal\<close>

text \<open>
  Lines 410 to 436 of the source: the element is written into the first free slot, taking
  the low slot of the last node when it is smaller than the value there.
\<close>

definition insert_place :: "('v::zero) heap \<Rightarrow> 'v \<Rightarrow> 'v heap" where
  "insert_place h element =
     (let h1 =
        (if ih_count h mod 2 = 0 then
           h\<lparr>buffer := (buffer h)[size_h h := Node element 0], size_h := size_h h + 1\<rparr>
         else
           let i = size_h h - 1;
               nd = buffer h ! i
           in
             if cmp h (data0 nd) element > 0 then
               h\<lparr>buffer := (buffer h)[i := Node element (data0 nd)]\<rparr>
             else
               h\<lparr>buffer := (buffer h)[i := Node (data0 nd) element]\<rparr>)
      in h1\<lparr>count := count h1 + 1\<rparr>)"

text \<open>
  Lines 438 to 451: the node that the source takes for the parent is
  \<^verbatim>\<open>buffer[(size - 1) / 2]\<close>.
\<close>

definition insert_float :: "'v heap \<Rightarrow> 'v \<Rightarrow> 'v heap" where
  "insert_float h element =
     (if ih_count h \<le> 2 then h
      else
        let parent = buffer h ! ((size_h h - 1) div 2) in
        if cmp h (data0 parent) element > 0 then ih_impl_float_up_min h
        else if cmp h (data1 parent) element < 0 then ih_impl_float_up_max h
        else h)"

definition ih_insert ::
  "(nat \<Rightarrow> 'v node) option \<Rightarrow> ('v::zero) heap \<Rightarrow> 'v \<Rightarrow> bool \<times> 'v heap" where
  "ih_insert ra h element =
     (let (ok, h1) =
        (if ih_full h then ih_resize ra h (wrap (ih_capacity h * 4)) else (True, h))
      in
        if \<not> ok then (False, h1)
        else (True, insert_float (insert_place h1 element) element))"

text \<open>
  The removal functions return the flag of the source and the heap; the value written
  through \<^verbatim>\<open>result\<close> is the third component, \<open>None\<close> when nothing is written.
\<close>

definition ih_remove_max :: "('v::zero) heap \<Rightarrow> bool \<times> 'v heap \<times> 'v option" where
  "ih_remove_max h =
     (if ih_empty h then (False, h, None)
      else if ih_count h = 1 then
        (True,
         h\<lparr>buffer := set_data0 (buffer h) 0 0, count := count h - 1\<rparr>,
         Some (data0 (buffer h ! 0)))
      else
        let result = data1 (buffer h ! 0);
            l = size_h h - 1;
            h1 =
              (if ih_count h mod 2 = 1 then
                 let b1 = set_data1 (buffer h) 0 (data0 (buffer h ! l)) in
                 h\<lparr>buffer := set_data0 b1 l 0, size_h := size_h h - 1\<rparr>
               else
                 let b1 = set_data1 (buffer h) 0 (data1 (buffer h ! l)) in
                 h\<lparr>buffer := set_data1 b1 l 0\<rparr>);
            h2 = h1\<lparr>count := count h1 - 1\<rparr>
        in (True, ih_impl_float_down_max h2, Some result))"

definition ih_remove_min :: "('v::zero) heap \<Rightarrow> bool \<times> 'v heap \<times> 'v option" where
  "ih_remove_min h =
     (if ih_empty h then (False, h, None)
      else
        let result = data0 (buffer h ! 0) in
        if ih_count h = 1 then
          (True,
           h\<lparr>buffer := set_data0 (buffer h) 0 0, count := count h - 1\<rparr>,
           Some result)
        else
          let l = size_h h - 1;
              b1 = set_data0 (buffer h) 0 (data0 (buffer h ! l));
              h1 =
                (if ih_count h mod 2 = 1 then
                   h\<lparr>buffer := set_data0 b1 l 0, size_h := size_h h - 1\<rparr>
                 else
                   let b2 = set_data0 b1 l (data1 (b1 ! l)) in
                   h\<lparr>buffer := set_data1 b2 l 0\<rparr>);
              h2 = h1\<lparr>count := count h1 - 1\<rparr>
          in (True, ih_impl_float_down_min h2, Some result))"

subsection \<open>Update and access of the extremes\<close>

definition ih_update_max :: "'v heap \<Rightarrow> 'v \<Rightarrow> bool \<times> 'v heap" where
  "ih_update_max h element =
     (if ih_empty h then (False, h)
      else if ih_count h = 1 then
        (True, h\<lparr>buffer := set_data0 (buffer h) 0 element\<rparr>)
      else if cmp h element (data0 (buffer h ! 0)) < 0 then
        let b1 = set_data1 (buffer h) 0 (data0 (buffer h ! 0));
            b2 = set_data0 b1 0 element
        in (True, ih_impl_float_down_max (h\<lparr>buffer := b2\<rparr>))
      else
        (True, ih_impl_float_down_max (h\<lparr>buffer := set_data1 (buffer h) 0 element\<rparr>)))"

definition ih_update_min :: "'v heap \<Rightarrow> 'v \<Rightarrow> bool \<times> 'v heap" where
  "ih_update_min h element =
     (if ih_empty h then (False, h)
      else if ih_count h = 1 then
        (True, h\<lparr>buffer := set_data0 (buffer h) 0 element\<rparr>)
      else if cmp h element (data1 (buffer h ! 0)) > 0 then
        let b1 = set_data0 (buffer h) 0 (data1 (buffer h ! 0));
            b2 = set_data1 b1 0 element
        in (True, ih_impl_float_down_min (h\<lparr>buffer := b2\<rparr>))
      else
        (True, ih_impl_float_down_min (h\<lparr>buffer := set_data0 (buffer h) 0 element\<rparr>)))"

text \<open>\<^verbatim>\<open>PFX##_max\<close> and \<^verbatim>\<open>PFX##_min\<close>: \<open>None\<close> is the return value \<^verbatim>\<open>false\<close>.\<close>

definition ih_max :: "'v heap \<Rightarrow> 'v option" where
  "ih_max h =
     (if ih_empty h then None
      else if ih_count h = 1 then Some (data0 (buffer h ! 0))
      else Some (data1 (buffer h ! 0)))"

definition ih_min :: "'v heap \<Rightarrow> 'v option" where
  "ih_min h = (if ih_empty h then None else Some (data0 (buffer h ! 0)))"

subsection \<open>Scans over the linear order\<close>

function contains_loop :: "'v heap \<Rightarrow> 'v \<Rightarrow> nat \<Rightarrow> bool" where
  "contains_loop h element i =
     (if i < count h then
        (if cmp h (elem h i) element = 0 then True else contains_loop h element (i + 1))
      else False)"
  by pat_completeness auto
termination
  by (relation "measure (\<lambda>(h, element, i). count h - i)") auto

definition ih_contains :: "'v heap \<Rightarrow> 'v \<Rightarrow> bool" where
  "ih_contains h element = contains_loop h element 0"

function equals_loop :: "'v heap \<Rightarrow> 'v heap \<Rightarrow> nat \<Rightarrow> bool" where
  "equals_loop h1 h2 i =
     (if i < count h1 then
        (if cmp h1 (elem h1 i) (elem h2 i) = 0 then True else equals_loop h1 h2 (i + 1))
      else False)"
  by pat_completeness auto
termination
  by (relation "measure (\<lambda>(h1, h2, i). count h1 - i)") auto

definition ih_equals :: "'v heap \<Rightarrow> 'v heap \<Rightarrow> bool" where
  "ih_equals h1 h2 = (if ih_count h1 \<noteq> ih_count h2 then False else equals_loop h1 h2 0)"

subsection \<open>The iterator\<close>

text \<open>
  The iterator holds a pointer to its target and reads the target anew in every call.
  The functions below take the current value of the target as their first argument.
\<close>

definition ih_iter_init :: "'v heap \<Rightarrow> iter" where
  "ih_iter_init target = \<lparr>cursor = 0, start = True, end' = ih_empty target\<rparr>"

definition ih_iter_start :: "'v heap \<Rightarrow> iter \<Rightarrow> bool" where
  "ih_iter_start target it = (ih_empty target \<or> start it)"

definition ih_iter_end :: "'v heap \<Rightarrow> iter \<Rightarrow> bool" where
  "ih_iter_end target it = (ih_empty target \<or> end' it)"

definition ih_iter_to_start :: "'v heap \<Rightarrow> iter \<Rightarrow> iter" where
  "ih_iter_to_start target it =
     (if \<not> ih_empty target
      then it\<lparr>cursor := 0, start := True, end' := ih_empty target\<rparr>
      else it)"

definition ih_iter_to_end :: "'v heap \<Rightarrow> iter \<Rightarrow> iter" where
  "ih_iter_to_end target it =
     (if \<not> ih_empty target
      then it\<lparr>cursor := count target - 1, start := ih_empty target, end' := True\<rparr>
      else it)"

definition ih_iter_next :: "'v heap \<Rightarrow> iter \<Rightarrow> bool \<times> iter" where
  "ih_iter_next target it =
     (if end' it then (False, it)
      else if wrap (cursor it + 1) = ih_count target then (False, it\<lparr>end' := True\<rparr>)
      else (True, it\<lparr>start := ih_empty target, cursor := wrap (cursor it + 1)\<rparr>))"

definition ih_iter_prev :: "'v heap \<Rightarrow> iter \<Rightarrow> bool \<times> iter" where
  "ih_iter_prev target it =
     (if start it then (False, it)
      else if cursor it = 0 then (False, it\<lparr>start := True\<rparr>)
      else (True, it\<lparr>end' := ih_empty target, cursor := cursor it - 1\<rparr>))"

definition ih_iter_advance :: "'v heap \<Rightarrow> iter \<Rightarrow> nat \<Rightarrow> bool \<times> iter" where
  "ih_iter_advance target it steps =
     (if start it then (False, it)
      else if cursor it = 0 then (False, it\<lparr>start := True\<rparr>)
      else if steps = 0 \<or> wrap (cursor it + steps) \<ge> ih_count target then (False, it)
      else (True, it\<lparr>start := ih_empty target, cursor := wrap (cursor it + steps)\<rparr>))"

definition ih_iter_rewind :: "'v heap \<Rightarrow> iter \<Rightarrow> nat \<Rightarrow> bool \<times> iter" where
  "ih_iter_rewind target it steps =
     (if start it then (False, it)
      else if cursor it = 0 then (False, it\<lparr>start := True\<rparr>)
      else if steps = 0 \<or> cursor it < steps then (False, it)
      else (True, it\<lparr>end' := ih_empty target, cursor := cursor it - steps\<rparr>))"

definition ih_iter_go_to :: "'v heap \<Rightarrow> iter \<Rightarrow> nat \<Rightarrow> bool \<times> iter" where
  "ih_iter_go_to target it index =
     (if index \<ge> ih_count target then (False, it)
      else if cursor it > index then ih_iter_rewind target it (cursor it - index)
      else if cursor it < index then ih_iter_advance target it (index - cursor it)
      else (True, it))"

definition ih_iter_value :: "('v::zero) heap \<Rightarrow> iter \<Rightarrow> 'v" where
  "ih_iter_value target it =
     (if ih_empty target then 0
      else data (buffer target ! (cursor it div 2)) (cursor it mod 2))"

definition ih_iter_index :: "iter \<Rightarrow> nat" where
  "ih_iter_index it = cursor it"

subsection \<open>Client code: comparison, sequences of calls\<close>

text \<open>
  \<^verbatim>\<open>intcmp\<close> of \<^verbatim>\<open>tests/heapsort.c\<close>, on values whose difference is representable.
\<close>

definition intcmp :: "int \<Rightarrow> int \<Rightarrow> int" where
  "intcmp a b = a - b"

text \<open>
  A sequence of calls of \<^verbatim>\<open>PFX##_insert\<close>, each with the outcome of the reallocation it may
  request. The result is \<open>None\<close> as soon as one call returns \<^verbatim>\<open>false\<close>.
\<close>

fun insert_seq ::
  "('v::zero) heap \<Rightarrow> ((nat \<Rightarrow> 'v node) option \<times> 'v) list \<Rightarrow> 'v heap option" where
  "insert_seq h [] = Some h"
| "insert_seq h ((ra, x) # ops) =
     (case ih_insert ra h x of
        (True, h') \<Rightarrow> insert_seq h' ops
      | (False, h') \<Rightarrow> None)"

text \<open>A reallocation that succeeds and returns memory filled with the node \<open>nd\<close>.\<close>

definition realloc_ok :: "'v node \<Rightarrow> (nat \<Rightarrow> 'v node) option" where
  "realloc_ok nd = Some (\<lambda>i. nd)"

text \<open>
  A heap of integers created with \<^verbatim>\<open>PFX##_new(cap, ...)\<close> and filled by inserting \<open>xs\<close> in
  order, every allocation succeeding.
\<close>

definition heap_of :: "nat \<Rightarrow> int list \<Rightarrow> int heap option" where
  "heap_of cap xs =
     (case ih_new True True cap (Some intcmp) of
        None \<Rightarrow> None
      | Some h \<Rightarrow> insert_seq h (map (\<lambda>x. (realloc_ok (Node 7 7), x)) xs))"

text \<open>
  \<^verbatim>\<open>while (!PFX##_empty(h)) { PFX##_remove_min(h, &r); ... }\<close>, collecting the results, and
  the same loop with \<^verbatim>\<open>PFX##_remove_max\<close>.
\<close>

lemma remove_min_count:
  "\<not> ih_empty h \<Longrightarrow> ih_remove_min h = (ok, h', r) \<Longrightarrow> count h' < count h"
  by (auto simp: ih_remove_min_def ih_empty_def ih_count_def ih_impl_float_down_min_def Let_def
           split: if_splits)

lemma remove_max_count:
  "\<not> ih_empty h \<Longrightarrow> ih_remove_max h = (ok, h', r) \<Longrightarrow> count h' < count h"
  by (auto simp: ih_remove_max_def ih_empty_def ih_count_def ih_impl_float_down_max_def Let_def
           split: if_splits)

function drain_min :: "('v::zero) heap \<Rightarrow> 'v list" where
  "drain_min h =
     (if ih_empty h then []
      else case ih_remove_min h of
        (ok, h', Some r) \<Rightarrow> r # drain_min h'
      | (ok, h', None) \<Rightarrow> [])"
  by pat_completeness auto
termination
proof (relation "measure count")
  fix h :: "('v::zero) heap" and ok y h' z r
  assume "\<not> ih_empty h" "(ok, y) = ih_remove_min h" "(h', z) = y" "z = Some r"
  then have "ih_remove_min h = (ok, h', Some r)" by simp
  with \<open>\<not> ih_empty h\<close> have "count h' < count h" by (rule remove_min_count)
  then show "(h', h) \<in> measure count" by simp
qed simp

declare drain_min.simps [simp del]

function drain_max :: "('v::zero) heap \<Rightarrow> 'v list" where
  "drain_max h =
     (if ih_empty h then []
      else case ih_remove_max h of
        (ok, h', Some r) \<Rightarrow> r # drain_max h'
      | (ok, h', None) \<Rightarrow> [])"
  by pat_completeness auto
termination
proof (relation "measure count")
  fix h :: "('v::zero) heap" and ok y h' z r
  assume "\<not> ih_empty h" "(ok, y) = ih_remove_max h" "(h', z) = y" "z = Some r"
  then have "ih_remove_max h = (ok, h', Some r)" by simp
  with \<open>\<not> ih_empty h\<close> have "count h' < count h" by (rule remove_max_count)
  then show "(h', h) \<in> measure count" by simp
qed simp

declare drain_max.simps [simp del]

text \<open>The results of \<open>n\<close> successive calls of \<^verbatim>\<open>PFX##_iter_next\<close>.\<close>

fun next_trace :: "'v heap \<Rightarrow> iter \<Rightarrow> nat \<Rightarrow> (bool \<times> iter) list" where
  "next_trace h it 0 = []"
| "next_trace h it (Suc n) =
     (case ih_iter_next h it of (r, it') \<Rightarrow> (r, it') # next_trace h it' n)"

subsection \<open>Sample heaps\<close>

definition heap_empty :: "int heap" where
  "heap_empty =
     \<lparr>buffer = [Node 0 0], capacity = 1, size_h = 0, count = 0, cmp = intcmp\<rparr>"

definition heap_7 :: "int heap" where
  "heap_7 =
     \<lparr>buffer = [Node 7 0], capacity = 1, size_h = 1, count = 1, cmp = intcmp\<rparr>"

definition heap_1_2 :: "int heap" where
  "heap_1_2 =
     \<lparr>buffer = [Node 1 2], capacity = 1, size_h = 1, count = 2, cmp = intcmp\<rparr>"

definition heap_1_3 :: "int heap" where
  "heap_1_3 =
     \<lparr>buffer = [Node 1 3], capacity = 1, size_h = 1, count = 2, cmp = intcmp\<rparr>"

definition heap_10_30_20 :: "int heap" where
  "heap_10_30_20 =
     \<lparr>buffer = [Node 10 30, Node 20 0], capacity = 2, size_h = 2, count = 3, cmp = intcmp\<rparr>"

definition heap_10_20_30 :: "int heap" where
  "heap_10_20_30 =
     \<lparr>buffer = [Node 10 20, Node 30 0], capacity = 2, size_h = 2, count = 3, cmp = intcmp\<rparr>"

definition heap_6 :: "int heap" where
  "heap_6 =
     \<lparr>buffer = [Node 1 9, Node 3 5, Node 2 8], capacity = 3, size_h = 3, count = 6,
      cmp = intcmp\<rparr>"

subsection \<open>Predicates used in the statements and proofs\<close>

text \<open>
  A comparison function is admissible when its sign is antisymmetric and \<open>\<le>\<close> is
  transitive, that is, when it is the three-way comparison of a total preorder.
\<close>

definition cmp_ok :: "('v \<Rightarrow> 'v \<Rightarrow> int) \<Rightarrow> bool" where
  "cmp_ok f \<longleftrightarrow>
     (\<forall>a b. f a b > 0 \<longleftrightarrow> f b a < 0) \<and> (\<forall>a b c. f a b \<le> 0 \<and> f b c \<le> 0 \<longrightarrow> f a c \<le> 0)"

text \<open>The element at a linear position of a buffer.\<close>

definition slot :: "'v node list \<Rightarrow> nat \<Rightarrow> 'v" where
  "slot buf i = data (buf ! (i div 2)) (i mod 2)"

text \<open>The first \<open>c\<close> elements of a buffer in linear order.\<close>

definition slots :: "'v node list \<Rightarrow> nat \<Rightarrow> 'v list" where
  "slots buf c = map (slot buf) [0..<c]"

text \<open>
  The position of the value that the max-side float-up pass moves when it is at node \<open>k\<close>:
  the low slot of the last node when the count is odd, the high slot otherwise.
\<close>

definition max_pos :: "nat \<Rightarrow> nat \<Rightarrow> nat \<Rightarrow> nat" where
  "max_pos sz c k = (if k = sz - 1 \<and> c mod 2 \<noteq> 0 then 2 * k else 2 * k + 1)"

text \<open>
  The invariant kept by insertion: the buffer has the length of the capacity, the nodes in
  use hold \<open>count\<close> elements with at most the last high slot free, the low slot of the
  root is a lower bound of all elements and, from two elements on, the high slot of the root
  is an upper bound.
\<close>

definition heap_inv :: "'v heap \<Rightarrow> bool" where
  "heap_inv h \<longleftrightarrow>
     cmp_ok (cmp h) \<and> 0 < capacity h \<and> capacity h < 2 ^ 63 \<and>
     length (buffer h) = capacity h \<and> size_h h \<le> capacity h \<and>
     (count h = 2 * size_h h \<or> count h + 1 = 2 * size_h h) \<and>
     (\<forall>i<count h. cmp h (slot (buffer h) 0) (slot (buffer h) i) \<le> 0) \<and>
     (2 \<le> count h \<longrightarrow> (\<forall>i<count h. cmp h (slot (buffer h) i) (slot (buffer h) 1) \<le> 0))"

section \<open>Properties\<close>

subsection \<open>Evaluation of the sample heaps\<close>

lemma replicate_numeral: "replicate (numeral k) x = x # replicate (pred_numeral k) x"
  by (simp add: numeral_eq_Suc)

lemma list_update_Cons_numeral: "(x # xs)[numeral k := y] = x # xs[pred_numeral k := y]"
  by (simp add: numeral_eq_Suc)

lemma four: "(4::nat) = Suc (Suc (Suc (Suc 0)))"
  by simp

lemmas list_eval = replicate_numeral list_update_Cons_numeral upt_conv_Cons

lemmas insert_eval = heap_of_def ih_new_def UINT64_MAX_def realloc_ok_def ih_insert_def
  ih_full_def ih_capacity_def ih_count_def ih_empty_def insert_place_def insert_float_def
  ih_resize_def wrap_def realloc_nodes_def memset_nodes_def ih_impl_float_up_max_def
  ih_impl_float_up_min_def float_up_max_loop.simps float_up_min_loop.simps Let_def intcmp_def

lemmas remove_eval = ih_remove_min_def ih_remove_max_def ih_impl_float_down_min_def
  ih_impl_float_down_max_def float_down_min_loop.simps float_down_max_loop.simps
  min_child_def max_child_def fix_node_def set_data0_def set_data1_def ih_empty_def
  ih_count_def Let_def intcmp_def

lemmas iter_eval = ih_iter_init_def ih_iter_to_start_def ih_iter_next_def ih_iter_go_to_def
  ih_iter_advance_def ih_iter_rewind_def ih_empty_def ih_count_def wrap_def

lemma heap_empty_reachable: "ih_new True True 2 (Some intcmp) = Some heap_empty"
  by (simp add: insert_eval heap_empty_def list_eval)

lemma heap_7_reachable: "heap_of 2 [7] = Some heap_7"
  by (simp add: insert_eval heap_7_def list_eval)

lemma heap_1_2_reachable: "heap_of 2 [1, 2] = Some heap_1_2"
  by (simp add: insert_eval heap_1_2_def list_eval)

lemma heap_1_3_reachable: "heap_of 2 [1, 3] = Some heap_1_3"
  by (simp add: insert_eval heap_1_3_def list_eval)

lemma heap_10_30_20_reachable: "heap_of 3 [10, 20, 30] = Some heap_10_30_20"
  by (simp add: insert_eval heap_10_30_20_def list_eval)

lemma heap_6_reachable: "heap_of 6 [5, 3, 8, 1, 9, 2] = Some heap_6"
  by (simp add: insert_eval heap_6_def list_eval)

subsection \<open>Fields kept by the passes\<close>

lemma length_float_down_min_loop [simp]:
  "length (float_down_min_loop f sz cnt buf index) = length buf"
proof (induction f sz cnt buf index rule: float_down_min_loop.induct)
  case (1 f sz cnt buf index)
  show ?case
    by (subst float_down_min_loop.simps) (simp add: Let_def 1)
qed

lemma length_float_down_max_loop [simp]:
  "length (float_down_max_loop f sz cnt buf index) = length buf"
proof (induction f sz cnt buf index rule: float_down_max_loop.induct)
  case (1 f sz cnt buf index)
  show ?case
    by (subst float_down_max_loop.simps) (simp add: Let_def 1)
qed

lemma capacity_insert_place [simp]: "capacity (insert_place h e) = capacity h"
  by (simp add: insert_place_def Let_def)

lemma capacity_insert_float [simp]: "capacity (insert_float h e) = capacity h"
  by (simp add: insert_float_def Let_def ih_impl_float_up_min_def ih_impl_float_up_max_def)

subsection \<open>Round trip\<close>

lemma drain_min_6:
  "drain_min \<lparr>buffer = Node 1 9 # Node 3 5 # Node 2 8 # t, capacity = c, size_h = 3,
      count = 6, cmp = intcmp\<rparr> = [1, 2, 3, 5, 8, 9]"
  by (simp add: drain_min.simps remove_eval list_eval)

lemma drain_max_6:
  "drain_max \<lparr>buffer = Node 1 9 # Node 3 5 # Node 2 8 # t, capacity = c, size_h = 3,
      count = 6, cmp = intcmp\<rparr> = [9, 8, 5, 3, 2, 1]"
  by (simp add: drain_max.simps remove_eval list_eval)

lemma new_form:
  "ih_new mo co cap (Some f) = Some h0 \<Longrightarrow>
   \<exists>n. 0 < n \<and>
     h0 = \<lparr>buffer = replicate n (Node 0 0), capacity = n, size_h = 0, count = 0, cmp = f\<rparr>"
  by (auto simp: ih_new_def Let_def split: if_splits)

lemma six_inserts_capacity_1:
  "insert_seq
     \<lparr>buffer = replicate 1 (Node 0 0), capacity = 1, size_h = 0, count = 0, cmp = intcmp\<rparr>
     [(r1, 5), (r2, 3), (r3, 8), (r4, 1), (r5, 9), (r6, 2)] = Some h \<Longrightarrow>
   \<exists>t c. h = \<lparr>buffer = Node 1 9 # Node 3 5 # Node 2 8 # t, capacity = c, size_h = 3,
              count = 6, cmp = intcmp\<rparr>"
  by (cases r3; cases r5) (auto simp add: insert_eval list_eval)

lemma six_inserts_capacity_2:
  "insert_seq
     \<lparr>buffer = replicate 2 (Node 0 0), capacity = 2, size_h = 0, count = 0, cmp = intcmp\<rparr>
     [(r1, 5), (r2, 3), (r3, 8), (r4, 1), (r5, 9), (r6, 2)] = Some h \<Longrightarrow>
   \<exists>t c. h = \<lparr>buffer = Node 1 9 # Node 3 5 # Node 2 8 # t, capacity = c, size_h = 3,
              count = 6, cmp = intcmp\<rparr>"
  by (cases r5) (auto simp add: insert_eval list_eval)

lemma six_inserts_capacity_3:
  "insert_seq
     \<lparr>buffer = replicate (3 + k) (Node 0 0), capacity = 3 + k, size_h = 0, count = 0,
      cmp = intcmp\<rparr>
     [(r1, 5), (r2, 3), (r3, 8), (r4, 1), (r5, 9), (r6, 2)] = Some h \<Longrightarrow>
   \<exists>t c. h = \<lparr>buffer = Node 1 9 # Node 3 5 # Node 2 8 # t, capacity = c, size_h = 3,
              count = 6, cmp = intcmp\<rparr>"
  by (auto simp add: insert_eval list_eval replicate_add)

lemma six_inserts:
  assumes "ih_new mo co cap (Some intcmp) = Some h0"
    and "insert_seq h0 [(r1, 5), (r2, 3), (r3, 8), (r4, 1), (r5, 9), (r6, 2)] = Some h"
  shows "\<exists>t c. h = \<lparr>buffer = Node 1 9 # Node 3 5 # Node 2 8 # t, capacity = c, size_h = 3,
                   count = 6, cmp = intcmp\<rparr>"
proof -
  from assms(1) obtain n where n: "0 < n"
    and h0: "h0 = \<lparr>buffer = replicate n (Node 0 0), capacity = n, size_h = 0, count = 0,
                    cmp = intcmp\<rparr>"
    using new_form by blast
  consider "n = 1" | "n = 2" | k where "n = 3 + k"
    using n by (metis One_nat_def Suc_1 Suc_lessI add.commute le_add_diff_inverse2
        less_Suc_eq_le not_less numeral_3_eq_3)
  then show ?thesis
  proof cases
    case 1
    with assms(2) h0 show ?thesis using six_inserts_capacity_1 by blast
  next
    case 2
    with assms(2) h0 show ?thesis using six_inserts_capacity_2 by blast
  next
    case 3
    with assms(2) h0 show ?thesis using six_inserts_capacity_3 by blast
  qed
qed

text \<open>
  Claim C2. Take a heap of integers created by \<^verbatim>\<open>PFX##_new\<close> with any capacity and the
  comparison \<^verbatim>\<open>intcmp\<close>, and insert 5, 3, 8, 1, 9, 2 in this order, every insert
  succeeding. Removing the minimum until the heap is empty then yields 1, 2, 3, 5, 8, 9, and
  removing the maximum until the heap is empty (from the same state) yields
  9, 8, 5, 3, 2, 1.
\<close>

theorem round_trip_5_3_8_1_9_2:
  assumes "ih_new mo co cap (Some intcmp) = Some h0"
    and "insert_seq h0 [(r1, 5), (r2, 3), (r3, 8), (r4, 1), (r5, 9), (r6, 2)] = Some h"
  shows "drain_min h = [1, 2, 3, 5, 8, 9] \<and> drain_max h = [9, 8, 5, 3, 2, 1]"
proof -
  from six_inserts [OF assms] obtain t c where
    "h = \<lparr>buffer = Node 1 9 # Node 3 5 # Node 2 8 # t, capacity = c, size_h = 3,
          count = 6, cmp = intcmp\<rparr>"
    by blast
  then show ?thesis by (simp only: drain_min_6 drain_max_6)
qed

text \<open>The premises hold for the heap created with capacity 6.\<close>

theorem round_trip_5_3_8_1_9_2_witness:
  "ih_new True True 6 (Some intcmp) =
     Some \<lparr>buffer = [Node 0 0, Node 0 0, Node 0 0], capacity = 3, size_h = 0, count = 0,
           cmp = intcmp\<rparr> \<and>
   insert_seq
     \<lparr>buffer = [Node 0 0, Node 0 0, Node 0 0], capacity = 3, size_h = 0, count = 0,
      cmp = intcmp\<rparr>
     [(None, 5), (None, 3), (None, 8), (None, 1), (None, 9), (None, 2)] = Some heap_6 \<and>
   drain_min heap_6 = [1, 2, 3, 5, 8, 9] \<and> drain_max heap_6 = [9, 8, 5, 3, 2, 1]"
proof -
  have a: "ih_new True True 6 (Some intcmp) =
     Some \<lparr>buffer = [Node 0 0, Node 0 0, Node 0 0], capacity = 3, size_h = 0, count = 0,
           cmp = intcmp\<rparr>"
    by (simp add: insert_eval list_eval)
  have b: "insert_seq
     \<lparr>buffer = [Node 0 0, Node 0 0, Node 0 0], capacity = 3, size_h = 0, count = 0,
      cmp = intcmp\<rparr>
     [(None, 5), (None, 3), (None, 8), (None, 1), (None, 9), (None, 2)] = Some heap_6"
    by (simp add: insert_eval list_eval heap_6_def)
  from round_trip_5_3_8_1_9_2 [OF a b] a b show ?thesis by simp
qed

subsection \<open>Element count and nodes in use\<close>

text \<open>
  Claim C3 says that after every public operation the element count is \<open>2 * size - 1\<close> or
  \<open>2 * size\<close>, so that no node is in use when the heap is empty. The theorem evaluates
  the source on the heap that holds the single element 7: \<^verbatim>\<open>PFX##_remove_min\<close> and
  \<^verbatim>\<open>PFX##_remove_max\<close> return 7 and leave \<open>count = 0\<close> with \<open>size = 1\<close>; inserting 5
  afterwards opens node 1, and \<^verbatim>\<open>PFX##_min\<close> reports the cleared slot of node 0.
\<close>

theorem remove_last_keeps_size:
  "heap_of 2 [7] = Some heap_7 \<and>
   ih_remove_min heap_7 = (True, heap_7\<lparr>buffer := [Node 0 0], count := 0\<rparr>, Some 7) \<and>
   ih_remove_max heap_7 = (True, heap_7\<lparr>buffer := [Node 0 0], count := 0\<rparr>, Some 7) \<and>
   count (heap_7\<lparr>buffer := [Node 0 0], count := 0\<rparr>) = 0 \<and>
   size_h (heap_7\<lparr>buffer := [Node 0 0], count := 0\<rparr>) = 1 \<and>
   ih_insert (realloc_ok (Node 0 0)) (heap_7\<lparr>buffer := [Node 0 0], count := 0\<rparr>) 5 =
     (True, \<lparr>buffer = [Node 0 0, Node 5 0], capacity = 2, size_h = 2, count = 1,
             cmp = intcmp\<rparr>) \<and>
   ih_min \<lparr>buffer = [Node 0 0, Node 5 0], capacity = 2, size_h = 2, count = 1,
           cmp = intcmp\<rparr> = Some 0"
  by (simp add: heap_7_reachable)
     (simp add: heap_7_def remove_eval insert_eval list_eval ih_min_def)

subsection \<open>Positional comparison of two heaps\<close>

lemma equals_loop_iff:
  "equals_loop h1 h2 i \<longleftrightarrow> (\<exists>j. i \<le> j \<and> j < count h1 \<and> cmp h1 (elem h1 j) (elem h2 j) = 0)"
proof (induction h1 h2 i rule: equals_loop.induct)
  case (1 h1 h2 i)
  show ?case
  proof (cases "i < count h1")
    case False
    then show ?thesis by (subst equals_loop.simps) auto
  next
    case True
    show ?thesis
    proof (cases "cmp h1 (elem h1 i) (elem h2 i) = 0")
      case eq: True
      with True show ?thesis by (subst equals_loop.simps) auto
    next
      case ne: False
      have "equals_loop h1 h2 i = equals_loop h1 h2 (i + 1)"
        using True ne by (subst equals_loop.simps) simp
      also have "\<dots> \<longleftrightarrow> (\<exists>j. i + 1 \<le> j \<and> j < count h1 \<and> cmp h1 (elem h1 j) (elem h2 j) = 0)"
        using 1 True ne by simp
      also have "\<dots> \<longleftrightarrow> (\<exists>j. i \<le> j \<and> j < count h1 \<and> cmp h1 (elem h1 j) (elem h2 j) = 0)"
        using ne by (metis Suc_eq_plus1 Suc_leD Suc_leI le_neq_implies_less)
      finally show ?thesis .
    qed
  qed
qed

text \<open>
  Claim C4 says that \<^verbatim>\<open>PFX##_equals\<close> is true exactly when the counts agree and the
  elements at every position below the count compare equal. The theorem evaluates the
  source on the heaps holding 1, 2 and 1, 3: the counts agree, position 1 differs, and the
  result is true, because the loop returns at the first position that compares equal. On
  two empty heaps the loop body never runs and the result is false.
\<close>

theorem equals_first_match:
  "heap_of 2 [1, 2] = Some heap_1_2 \<and> heap_of 2 [1, 3] = Some heap_1_3 \<and>
   count heap_1_2 = count heap_1_3 \<and>
   cmp heap_1_2 (elem heap_1_2 1) (elem heap_1_3 1) \<noteq> 0 \<and>
   ih_equals heap_1_2 heap_1_3 \<and>
   ih_new True True 2 (Some intcmp) = Some heap_empty \<and>
   \<not> ih_equals heap_empty heap_empty"
  by (simp add: heap_1_2_reachable heap_1_3_reachable heap_empty_reachable)
     (simp add: heap_1_2_def heap_1_3_def heap_empty_def ih_equals_def ih_count_def
        equals_loop.simps elem_def data_def intcmp_def)

subsection \<open>The iterator\<close>

lemma go_to_out_of_range:
  "count h \<le> i \<Longrightarrow> ih_iter_go_to h it i = (False, it)"
  by (simp add: ih_iter_go_to_def ih_count_def)

text \<open>
  Claim C5 says that \<^verbatim>\<open>PFX##_iter_go_to\<close> fails for an index at or past the count and
  succeeds for every index below it, after which the cursor is at that index. The theorem
  evaluates the source on the heap obtained by inserting 10, 20, 30 and an iterator fresh
  from \<^verbatim>\<open>PFX##_iter_init\<close>: going to index 2 (and to index 1) returns \<^verbatim>\<open>false\<close> and
  leaves the cursor at 0, because \<^verbatim>\<open>PFX##_iter_advance\<close> begins with the test of the
  \<^verbatim>\<open>start\<close> flag that \<^verbatim>\<open>PFX##_iter_rewind\<close> has.
\<close>

theorem go_to_from_start_fails:
  "heap_of 3 [10, 20, 30] = Some heap_10_30_20 \<and> count heap_10_30_20 = 3 \<and>
   ih_iter_go_to heap_10_30_20 (ih_iter_init heap_10_30_20) 2 =
     (False, ih_iter_init heap_10_30_20) \<and>
   ih_iter_go_to heap_10_30_20 (ih_iter_init heap_10_30_20) 1 =
     (False, ih_iter_init heap_10_30_20) \<and>
   ih_iter_index (ih_iter_init heap_10_30_20) = 0"
  by (simp add: heap_10_30_20_reachable)
     (simp add: heap_10_30_20_def iter_eval ih_iter_index_def)

text \<open>
  Claim C6, amended. On a heap with three elements, after \<^verbatim>\<open>PFX##_iter_to_start\<close> four
  calls of \<^verbatim>\<open>PFX##_iter_next\<close> return true, true, false, false. The first two calls move
  the cursor to index 1 and to index 2 and leave the \<^verbatim>\<open>end\<close> flag false; the third call
  finds the cursor on the last element, sets the \<^verbatim>\<open>end\<close> flag and returns false with
  the cursor still at index 2; the fourth call returns false and changes nothing.
\<close>

theorem iter_next_at_last:
  assumes "count h = 3"
  shows "next_trace h (ih_iter_to_start h it) 4 =
     [(True, \<lparr>cursor = 1, start = False, end' = False\<rparr>),
      (True, \<lparr>cursor = 2, start = False, end' = False\<rparr>),
      (False, \<lparr>cursor = 2, start = False, end' = True\<rparr>),
      (False, \<lparr>cursor = 2, start = False, end' = True\<rparr>)]"
  using assms by (subst four) (simp add: iter_eval)

text \<open>The heap with 10, 20, 30 in buffer order has three elements.\<close>

theorem iter_next_at_last_witness:
  "count heap_10_20_30 = 3 \<and>
   map (\<lambda>i. elem heap_10_20_30 i) [0, 1, 2] = [10, 20, 30] \<and>
   next_trace heap_10_20_30 (ih_iter_to_start heap_10_20_30 (ih_iter_init heap_10_20_30)) 4 =
     [(True, \<lparr>cursor = 1, start = False, end' = False\<rparr>),
      (True, \<lparr>cursor = 2, start = False, end' = False\<rparr>),
      (False, \<lparr>cursor = 2, start = False, end' = True\<rparr>),
      (False, \<lparr>cursor = 2, start = False, end' = True\<rparr>)]"
proof -
  have c: "count heap_10_20_30 = 3" by (simp add: heap_10_20_30_def)
  have e: "map (\<lambda>i. elem heap_10_20_30 i) [0, 1, 2] = [10, 20, 30]"
    by (simp add: heap_10_20_30_def elem_def data_def)
  from iter_next_at_last [OF c, of "ih_iter_init heap_10_20_30"] c e show ?thesis by simp
qed

text \<open>
  The claim as stated has the four calls return true, true, true, false. On the heap with
  10, 20, 30 in buffer order the third call returns false, and so it does on the heap
  obtained by inserting 10, 20, 30, whose buffer order is 10, 30, 20.
\<close>

theorem iter_next_third_call_counterexample:
  "map fst
     (next_trace heap_10_20_30 (ih_iter_to_start heap_10_20_30 (ih_iter_init heap_10_20_30)) 4)
   \<noteq> [True, True, True, False] \<and>
   heap_of 3 [10, 20, 30] = Some heap_10_30_20 \<and>
   map fst
     (next_trace heap_10_30_20 (ih_iter_to_start heap_10_30_20 (ih_iter_init heap_10_30_20)) 4)
   \<noteq> [True, True, True, False]"
  by (simp add: heap_10_30_20_reachable)
     (subst four, subst four, simp add: heap_10_20_30_def heap_10_30_20_def iter_eval)

subsection \<open>Resizing\<close>

lemma resize_below_count:
  "cap < count h \<Longrightarrow>
   ih_resize ra h cap = (if capacity h = cap then (True, h) else (False, h))"
  by (simp add: ih_resize_def ih_capacity_def ih_count_def)

text \<open>
  Claim C7 says that \<^verbatim>\<open>PFX##_resize\<close> with a capacity below the element count returns
  failure and leaves the heap unchanged. The theorem evaluates the source on the heap
  holding 1, 2, whose single node is full: the request for capacity 1 is below the count 2
  and returns \<^verbatim>\<open>true\<close>, because the requested number of elements equals the number of
  nodes allocated and the first test of the function compares the two. The heap is unchanged.
\<close>

theorem resize_to_node_capacity_succeeds:
  "heap_of 2 [1, 2] = Some heap_1_2 \<and> count heap_1_2 = 2 \<and> capacity heap_1_2 = 1 \<and>
   ih_resize None heap_1_2 1 = (True, heap_1_2) \<and>
   ih_resize (realloc_ok (Node 0 0)) heap_1_2 1 = (True, heap_1_2)"
  by (simp add: heap_1_2_reachable) (simp add: heap_1_2_def resize_below_count)

lemma resize_times_4:
  assumes "0 < capacity h" and "capacity h * 4 < 2 ^ 64" and "count h \<le> 2 * capacity h"
  shows "ih_resize (Some fresh) h (wrap (ih_capacity h * 4)) =
           (True, h\<lparr>buffer := memset_nodes (realloc_nodes (buffer h) (2 * capacity h) fresh)
                                 (capacity h) (capacity h),
                    capacity := 2 * capacity h\<rparr>)"
proof -
  have w: "wrap (ih_capacity h * 4) = capacity h * 4"
    using assms(2) by (simp add: wrap_def ih_capacity_def)
  have ne: "capacity h \<noteq> capacity h * 4" using assms(1) by simp
  have ge: "\<not> capacity h * 4 < count h" using assms(3) by simp
  show ?thesis
    unfolding w using ne ge by (simp add: ih_resize_def ih_capacity_def ih_count_def Let_def)
qed

text \<open>
  Claim C8, amended. Let \<^verbatim>\<open>PFX##_insert\<close> be called on a full heap that has at least one
  node, holds at most two elements per node and whose capacity times 4 is representable in
  \<^verbatim>\<open>size_t\<close>. When the reallocation succeeds, the insert succeeds and the capacity
  reported afterwards is 2 times the capacity reported before: the request
  \<^verbatim>\<open>capacity * 4\<close> counts elements and \<^verbatim>\<open>PFX##_resize\<close> halves it into nodes.
\<close>

theorem insert_doubles_capacity:
  assumes "ih_full h" and "0 < capacity h" and "capacity h * 4 < 2 ^ 64"
    and "count h \<le> 2 * capacity h"
  shows "fst (ih_insert (Some fresh) h e) \<and>
         ih_capacity (snd (ih_insert (Some fresh) h e)) = 2 * ih_capacity h"
proof -
  from resize_times_4 [OF assms(2,3,4), of fresh] assms(1)
  show ?thesis by (simp add: ih_insert_def ih_capacity_def)
qed

text \<open>The full heap holding 1, 2 has one node; inserting 3 makes it two.\<close>

theorem insert_doubles_capacity_witness:
  "ih_full heap_1_2 \<and> 0 < capacity heap_1_2 \<and> capacity heap_1_2 * 4 < 2 ^ 64 \<and>
   count heap_1_2 \<le> 2 * capacity heap_1_2 \<and>
   fst (ih_insert (realloc_ok (Node 7 7)) heap_1_2 3) \<and>
   ih_capacity heap_1_2 = 1 \<and>
   ih_capacity (snd (ih_insert (realloc_ok (Node 7 7)) heap_1_2 3)) = 2"
proof -
  have f: "ih_full heap_1_2" by (simp add: heap_1_2_def ih_full_def)
  have p: "0 < capacity heap_1_2" by (simp add: heap_1_2_def)
  have q: "capacity heap_1_2 * 4 < 2 ^ 64" by (simp add: heap_1_2_def)
  have r: "count heap_1_2 \<le> 2 * capacity heap_1_2" by (simp add: heap_1_2_def)
  have c: "ih_capacity heap_1_2 = 1" by (simp add: heap_1_2_def ih_capacity_def)
  from insert_doubles_capacity [OF f p q r, of "\<lambda>i. Node 7 7" 3] f p q r c
  show ?thesis by (simp add: realloc_ok_def)
qed

text \<open>
  The claim as stated has the capacity grow 4 times. On the full heap holding 1, 2 the
  insert of 3 succeeds and the capacity goes from 1 to 2.
\<close>

theorem insert_not_four_times_counterexample:
  "heap_of 2 [1, 2] = Some heap_1_2 \<and> ih_full heap_1_2 \<and>
   fst (ih_insert (realloc_ok (Node 7 7)) heap_1_2 3) \<and>
   ih_capacity (snd (ih_insert (realloc_ok (Node 7 7)) heap_1_2 3)) \<noteq> 4 * ih_capacity heap_1_2"
  by (simp add: heap_1_2_reachable) (simp add: heap_1_2_def insert_eval list_eval)

subsection \<open>Replacing an extreme\<close>

text \<open>
  Claim C9. \<^verbatim>\<open>PFX##_update_max\<close> and \<^verbatim>\<open>PFX##_update_min\<close> fail on an empty heap. With
  one element they write the replacement into the low slot of the root and run no pass. With
  two or more elements, \<^verbatim>\<open>PFX##_update_max\<close> with a replacement below the minimum makes
  the root hold the replacement in its low slot and the former minimum in its high slot, and
  otherwise writes the replacement into the high slot; \<^verbatim>\<open>PFX##_update_min\<close> with a
  replacement above the maximum makes the root hold the former maximum in its low slot and
  the replacement in its high slot, and otherwise writes the replacement into the low slot.
  In each of these four cases the matching float-down pass runs on the result.
\<close>

theorem update_root_cases:
  "ih_update_max h e =
     (if count h = 0 then (False, h)
      else if count h = 1 then
        (True, h\<lparr>buffer := (buffer h)[0 := Node e (data1 (buffer h ! 0))]\<rparr>)
      else if cmp h e (data0 (buffer h ! 0)) < 0 then
        (True, ih_impl_float_down_max
                 (h\<lparr>buffer := (buffer h)[0 := Node e (data0 (buffer h ! 0))]\<rparr>))
      else
        (True, ih_impl_float_down_max
                 (h\<lparr>buffer := (buffer h)[0 := Node (data0 (buffer h ! 0)) e]\<rparr>)))
   \<and>
   ih_update_min h e =
     (if count h = 0 then (False, h)
      else if count h = 1 then
        (True, h\<lparr>buffer := (buffer h)[0 := Node e (data1 (buffer h ! 0))]\<rparr>)
      else if cmp h e (data1 (buffer h ! 0)) > 0 then
        (True, ih_impl_float_down_min
                 (h\<lparr>buffer := (buffer h)[0 := Node (data1 (buffer h ! 0)) e]\<rparr>))
      else
        (True, ih_impl_float_down_min
                 (h\<lparr>buffer := (buffer h)[0 := Node e (data1 (buffer h ! 0))]\<rparr>)))"
  by (cases "buffer h")
     (simp_all add: ih_update_min_def ih_update_max_def ih_empty_def ih_count_def
        set_data0_def set_data1_def Let_def)

text \<open>
  On the heap holding 1, 2: replacing the maximum by 0 gives the root 0, 1 and replacing the
  minimum by 5 gives the root 2, 5.
\<close>

theorem update_root_cases_witness:
  "ih_update_max heap_1_2 0 = (True, heap_1_2\<lparr>buffer := [Node 0 1]\<rparr>) \<and>
   ih_update_min heap_1_2 5 = (True, heap_1_2\<lparr>buffer := [Node 2 5]\<rparr>) \<and>
   ih_update_max heap_7 3 = (True, heap_7\<lparr>buffer := [Node 3 0]\<rparr>) \<and>
   ih_update_min heap_empty 3 = (False, heap_empty)"
  using update_root_cases [of heap_1_2 0] update_root_cases [of heap_1_2 5]
    update_root_cases [of heap_7 3] update_root_cases [of heap_empty 3]
  by (simp add: heap_1_2_def heap_7_def heap_empty_def intcmp_def
        ih_impl_float_down_max_def ih_impl_float_down_min_def
        float_down_max_loop.simps float_down_min_loop.simps)

text \<open>
  Claim C10. On a heap that is not empty, \<^verbatim>\<open>PFX##_update_min\<close> and \<^verbatim>\<open>PFX##_update_max\<close>
  return \<^verbatim>\<open>true\<close>, and the heap they leave is the heap they were given with another
  buffer of the same length: \<^verbatim>\<open>count\<close>, \<^verbatim>\<open>size\<close> and \<^verbatim>\<open>capacity\<close> are unchanged.
\<close>

theorem update_frame:
  assumes "\<not> ih_empty h"
  shows "fst (ih_update_min h e) \<and> fst (ih_update_max h e) \<and>
         snd (ih_update_min h e) = h\<lparr>buffer := buffer (snd (ih_update_min h e))\<rparr> \<and>
         snd (ih_update_max h e) = h\<lparr>buffer := buffer (snd (ih_update_max h e))\<rparr> \<and>
         length (buffer (snd (ih_update_min h e))) = length (buffer h) \<and>
         length (buffer (snd (ih_update_max h e))) = length (buffer h) \<and>
         count (snd (ih_update_min h e)) = count h \<and>
         size_h (snd (ih_update_min h e)) = size_h h \<and>
         capacity (snd (ih_update_min h e)) = capacity h \<and>
         count (snd (ih_update_max h e)) = count h \<and>
         size_h (snd (ih_update_max h e)) = size_h h \<and>
         capacity (snd (ih_update_max h e)) = capacity h"
  using assms
  by (simp add: ih_update_min_def ih_update_max_def ih_impl_float_down_min_def
      ih_impl_float_down_max_def set_data0_def set_data1_def Let_def)

text \<open>The heap obtained by inserting 10, 20, 30 is not empty.\<close>

theorem update_frame_witness:
  "\<not> ih_empty heap_10_30_20 \<and>
   fst (ih_update_min heap_10_30_20 25) \<and> fst (ih_update_max heap_10_30_20 5) \<and>
   count (snd (ih_update_min heap_10_30_20 25)) = 3 \<and>
   size_h (snd (ih_update_min heap_10_30_20 25)) = 2 \<and>
   capacity (snd (ih_update_min heap_10_30_20 25)) = 2 \<and>
   count (snd (ih_update_max heap_10_30_20 5)) = 3 \<and>
   size_h (snd (ih_update_max heap_10_30_20 5)) = 2 \<and>
   capacity (snd (ih_update_max heap_10_30_20 5)) = 2"
proof -
  have n: "\<not> ih_empty heap_10_30_20" by (simp add: heap_10_30_20_def ih_empty_def)
  have c: "count heap_10_30_20 = 3" "size_h heap_10_30_20 = 2" "capacity heap_10_30_20 = 2"
    by (simp_all add: heap_10_30_20_def)
  from update_frame [OF n, of 25] update_frame [OF n, of 5] n c show ?thesis by simp
qed

subsection \<open>Insertion keeps the extremes at the root\<close>

lemma cmp_refl: "cmp_ok f \<Longrightarrow> f a a \<le> 0"
  unfolding cmp_ok_def by (metis not_less order.asym)

lemma cmp_trans: "cmp_ok f \<Longrightarrow> f a b \<le> 0 \<Longrightarrow> f b c \<le> 0 \<Longrightarrow> f a c \<le> 0"
  unfolding cmp_ok_def by blast

lemma cmp_flip: "cmp_ok f \<Longrightarrow> \<not> f a b < 0 \<Longrightarrow> f b a \<le> 0"
  unfolding cmp_ok_def by (metis not_less order.asym linorder_neqE_linordered_idom order_less_imp_le order_refl)

lemma cmp_flip_gt: "cmp_ok f \<Longrightarrow> f a b > 0 \<Longrightarrow> f b a \<le> 0"
  unfolding cmp_ok_def by (metis order_less_imp_le)

lemma slot_even: "slot buf (2 * k) = data0 (buf ! k)"
  by (simp add: slot_def data_def)

lemma slot_odd: "slot buf (2 * k + 1) = data1 (buf ! k)"
  by (simp add: slot_def data_def)

lemma slot_odd': "slot buf (Suc (2 * k)) = data1 (buf ! k)"
  by (simp add: slot_def data_def)

lemma slot_update:
  "k < length buf \<Longrightarrow>
   slot (buf[k := Node x y]) i =
     (if i = 2 * k then x else if i = 2 * k + 1 then y else slot buf i)"
proof -
  assume k: "k < length buf"
  have "i div 2 = k \<longleftrightarrow> i = 2 * k \<or> i = 2 * k + 1" by arith
  moreover have "(2 * k) mod 2 = 0" "(2 * k + 1) mod 2 = 1" by simp_all
  ultimately show ?thesis using k
    by (auto simp: slot_def data_def nth_list_update)
qed

lemma slot_swap_low:
  assumes "k < length buf" "p < length buf" "p \<noteq> k"
  shows "slot (buf[k := Node (data0 (buf ! p)) (data1 (buf ! k)),
                   p := Node (data0 (buf ! k)) (data1 (buf ! p))]) i =
         (if i = 2 * p then slot buf (2 * k) else if i = 2 * k then slot buf (2 * p) else slot buf i)"
  using assms by (auto simp: slot_update slot_even slot_odd slot_odd')

lemma float_up_min_bounds:
  shows "cmp_ok f \<Longrightarrow> k < length b \<Longrightarrow> 2 * k < c \<Longrightarrow> 2 \<le> c \<Longrightarrow>
     (\<forall>i<c. i \<noteq> 2 * k \<longrightarrow> f (slot b 0) (slot b i) \<le> 0) \<Longrightarrow>
     (\<forall>i<c. f (slot b i) (slot b 1) \<le> 0) \<Longrightarrow>
     length (float_up_min_loop f b k) = length b \<and>
     (\<forall>i<c. f (slot (float_up_min_loop f b k) 0) (slot (float_up_min_loop f b k) i) \<le> 0) \<and>
     (\<forall>i<c. f (slot (float_up_min_loop f b k) i) (slot (float_up_min_loop f b k) 1) \<le> 0)"
proof (induction f b k rule: float_up_min_loop.induct)
  case (1 f b k)
  from "1.prems" have ok: "cmp_ok f" and kl: "k < length b" and kc: "2 * k < c"
    and c2: "2 \<le> c"
    and LO: "\<forall>i<c. i \<noteq> 2 * k \<longrightarrow> f (slot b 0) (slot b i) \<le> 0"
    and UP: "\<forall>i<c. f (slot b i) (slot b 1) \<le> 0"
    by blast+
  show ?case
  proof (cases "k > 0")
    case False
    then have k0: "k = 0" by simp
    have "float_up_min_loop f b k = b" using k0 by (subst float_up_min_loop.simps) simp
    moreover have "\<forall>i<c. f (slot b 0) (slot b i) \<le> 0"
      using LO k0 cmp_refl[OF ok] by (metis mult_0_right)
    ultimately show ?thesis using UP by simp
  next
    case kpos: True
    define p where "p = (k - 1) div 2"
    have pk: "p < k" "p \<noteq> k" "p < length b" "2 * p < c" "2 * p \<noteq> 2 * k"
      using kpos kl kc by (auto simp: p_def)
    show ?thesis
    proof (cases "f (data0 (b ! k)) (data0 (b ! p)) \<ge> 0")
      case stop: True
      have eq: "float_up_min_loop f b k = b"
        using kpos stop by (subst float_up_min_loop.simps) (simp add: p_def Let_def)
      have "f (slot b (2 * p)) (slot b (2 * k)) \<le> 0"
        using stop cmp_flip[OF ok] by (simp add: slot_even)
      moreover have "f (slot b 0) (slot b (2 * p)) \<le> 0"
        using LO pk by blast
      ultimately have "f (slot b 0) (slot b (2 * k)) \<le> 0"
        using cmp_trans[OF ok] by blast
      then have "\<forall>i<c. f (slot b 0) (slot b i) \<le> 0"
        using LO by metis
      then show ?thesis using eq UP by simp
    next
      case swap: False
      define b1 where "b1 = b[k := Node (data0 (b ! p)) (data1 (b ! k)),
                   p := Node (data0 (b ! k)) (data1 (b ! p))]"
      have eq: "float_up_min_loop f b k = float_up_min_loop f b1 p"
        using kpos swap by (subst float_up_min_loop.simps) (simp add: p_def Let_def b1_def)
      have s1: "\<And>i. slot b1 i =
         (if i = 2 * p then slot b (2 * k) else if i = 2 * k then slot b (2 * p) else slot b i)"
        unfolding b1_def using slot_swap_low[OF kl pk(3) pk(2)] by simp
      have lt: "f (slot b (2 * k)) (slot b (2 * p)) \<le> 0"
        using swap by (simp add: slot_even)
      have len: "length b1 = length b" by (simp add: b1_def)
      have up: "\<forall>i<c. f (slot b1 i) (slot b1 1) \<le> 0"
        using kc UP pk by (auto simp: s1)
      have lo: "\<forall>i<c. i \<noteq> 2 * p \<longrightarrow> f (slot b1 0) (slot b1 i) \<le> 0"
      proof (intro allI impI)
        fix i assume i: "i < c" "i \<noteq> 2 * p"
        show "f (slot b1 0) (slot b1 i) \<le> 0"
        proof (cases "p = 0")
          case True
          then have r: "slot b1 0 = slot b (2 * k)" by (simp add: s1)
          show ?thesis
          proof (cases "i = 2 * k")
            case True
            then show ?thesis using r lt \<open>p = 0\<close> kpos by (simp add: s1)
          next
            case False
            then have "slot b1 i = slot b i" using i by (simp add: s1)
            moreover have "f (slot b 0) (slot b i) \<le> 0" using LO i False by blast
            ultimately show ?thesis using r lt \<open>p = 0\<close> cmp_trans[OF ok] by (metis mult_0_right)
          qed
        next
          case False
          then have r: "slot b1 0 = slot b 0" using kpos by (simp add: s1)
          show ?thesis
          proof (cases "i = 2 * k")
            case True
            then show ?thesis using r LO pk i by (simp add: s1)
          next
            case False
            then show ?thesis using r LO i by (simp add: s1)
          qed
        qed
      qed
      have "length (float_up_min_loop f b1 p) = length b1 \<and>
        (\<forall>i<c. f (slot (float_up_min_loop f b1 p) 0) (slot (float_up_min_loop f b1 p) i) \<le> 0) \<and>
        (\<forall>i<c. f (slot (float_up_min_loop f b1 p) i) (slot (float_up_min_loop f b1 p) 1) \<le> 0)"
        using "1.IH"[OF kpos p_def refl refl _ ok, folded b1_def] swap pk len c2 lo up
        by simp
      then show ?thesis using eq len by simp
    qed
  qed
qed

lemma slot_swap_low_high:
  assumes "k < length buf" "p < length buf" "p \<noteq> k"
  shows "slot (buf[k := Node (data1 (buf ! p)) (data1 (buf ! k)),
                   p := Node (data0 (buf ! p)) (data0 (buf ! k))]) i =
         (if i = 2 * p + 1 then slot buf (2 * k)
          else if i = 2 * k then slot buf (2 * p + 1) else slot buf i)"
  using assms by (auto simp: slot_update slot_even slot_odd slot_odd')

lemma slot_swap_high:
  assumes "k < length buf" "p < length buf" "p \<noteq> k"
  shows "slot (buf[k := Node (data0 (buf ! k)) (data1 (buf ! p)),
                   p := Node (data0 (buf ! p)) (data1 (buf ! k))]) i =
         (if i = 2 * p + 1 then slot buf (2 * k + 1)
          else if i = 2 * k + 1 then slot buf (2 * p + 1) else slot buf i)"
  using assms by (auto simp: slot_update slot_even slot_odd slot_odd')

lemma max_pos_less:
  assumes "k < sz" and "c = 2 * sz \<or> c + 1 = 2 * sz"
  shows "max_pos sz c k < c"
proof (cases "k = sz - 1 \<and> c mod 2 \<noteq> 0")
  case True
  have "max_pos sz c k = 2 * k"
    unfolding max_pos_def by (rule if_P[OF True])
  moreover have "2 * k < c" using assms True by arith
  ultimately show ?thesis by simp
next
  case False
  have "max_pos sz c k = 2 * k + 1"
    unfolding max_pos_def by (rule if_not_P[OF False])
  moreover have "2 * k + 1 < c" using assms False by arith
  ultimately show ?thesis by simp
qed

lemma float_up_max_step:
  assumes "0 < k"
  shows "float_up_max_loop f sz c b k =
     (if f (slot b (max_pos sz c k)) (slot b (2 * ((k - 1) div 2) + 1)) < 0 then b
      else float_up_max_loop f sz c
        (if k = sz - 1 \<and> c mod 2 \<noteq> 0
         then b[k := Node (data1 (b ! ((k - 1) div 2))) (data1 (b ! k)),
                (k - 1) div 2 := Node (data0 (b ! ((k - 1) div 2))) (data0 (b ! k))]
         else b[k := Node (data0 (b ! k)) (data1 (b ! ((k - 1) div 2))),
                (k - 1) div 2 := Node (data0 (b ! ((k - 1) div 2))) (data1 (b ! k))])
        ((k - 1) div 2))"
  using assms
  by (rule_tac trans[OF float_up_max_loop.simps])
     (simp add: Let_def max_pos_def slot_even slot_odd slot_odd')

lemma float_up_max_bounds:
  "cmp_ok f \<Longrightarrow> k < sz \<Longrightarrow> sz \<le> length b \<Longrightarrow> c = 2 * sz \<or> c + 1 = 2 * sz \<Longrightarrow> 3 \<le> c \<Longrightarrow>
     (\<forall>i<c. i \<noteq> max_pos sz c k \<longrightarrow> f (slot b i) (slot b 1) \<le> 0) \<Longrightarrow>
     (\<forall>i<c. f (slot b 0) (slot b i) \<le> 0) \<Longrightarrow>
     length (float_up_max_loop f sz c b k) = length b \<and>
     (\<forall>i<c. f (slot (float_up_max_loop f sz c b k) 0) (slot (float_up_max_loop f sz c b k) i) \<le> 0) \<and>
     (\<forall>i<c. f (slot (float_up_max_loop f sz c b k) i) (slot (float_up_max_loop f sz c b k) 1) \<le> 0)"
proof (induction f sz c b k rule: float_up_max_loop.induct)
  case (1 f sz c b k)
  from "1.prems" have ok: "cmp_ok f" and ks: "k < sz" and sl: "sz \<le> length b"
    and cs: "c = 2 * sz \<or> c + 1 = 2 * sz" and c3: "3 \<le> c"
    and UP: "\<forall>i<c. i \<noteq> max_pos sz c k \<longrightarrow> f (slot b i) (slot b 1) \<le> 0"
    and LO: "\<forall>i<c. f (slot b 0) (slot b i) \<le> 0"
    by blast+
  show ?case
  proof (cases "k > 0")
    case False
    then have k0: "k = 0" by simp
    have eq: "float_up_max_loop f sz c b k = b" using k0 by (subst float_up_max_loop.simps) simp
    have "max_pos sz c k = 1" using k0 cs c3 by (auto simp: max_pos_def)
    then have "\<forall>i<c. f (slot b i) (slot b 1) \<le> 0"
      using UP cmp_refl[OF ok] by metis
    then show ?thesis using eq LO by simp
  next
    case kpos: True
    define p where "p = (k - 1) div 2"
    define q where "q = max_pos sz c k"
    have pk: "p < k" "p \<noteq> k" "p < length b" "k < length b" "p < sz" "2 * p + 1 < c"
      using kpos ks sl cs by (auto simp: p_def)
    have q: "q < c" "q \<noteq> 2 * p + 1" "q = 2 * k \<or> q = 2 * k + 1" "q \<noteq> 0" "q \<noteq> 1"
      using max_pos_less[OF ks cs] pk kpos by (auto simp: q_def max_pos_def)
    have mp: "max_pos sz c p = 2 * p + 1"
      using pk ks by (auto simp: max_pos_def)
    show ?thesis
    proof (cases "f (slot b q) (slot b (2 * p + 1)) < 0")
      case stop: True
      have eq: "float_up_max_loop f sz c b k = b"
        using stop by (subst float_up_max_step[OF kpos]) (simp add: p_def q_def)
      have "f (slot b (2 * p + 1)) (slot b 1) \<le> 0"
        using UP pk q by (simp add: q_def)
      with stop have "f (slot b q) (slot b 1) \<le> 0"
        using cmp_trans[OF ok] by (metis order_less_imp_le)
      then have "\<forall>i<c. f (slot b i) (slot b 1) \<le> 0"
        using UP unfolding q_def by metis
      then show ?thesis using eq LO by simp
    next
      case swap: False
      define b1 where "b1 =
        (if k = sz - 1 \<and> c mod 2 \<noteq> 0
         then b[k := Node (data1 (b ! p)) (data1 (b ! k)),
                p := Node (data0 (b ! p)) (data0 (b ! k))]
         else b[k := Node (data0 (b ! k)) (data1 (b ! p)),
                p := Node (data0 (b ! p)) (data1 (b ! k))])"
      have eq: "float_up_max_loop f sz c b k = float_up_max_loop f sz c b1 p"
        using swap by (subst float_up_max_step[OF kpos]) (simp add: p_def q_def b1_def)
      have s1: "slot b1 i =
         (if i = 2 * p + 1 then slot b q else if i = q then slot b (2 * p + 1) else slot b i)"
        for i
      proof (cases "k = sz - 1 \<and> c mod 2 \<noteq> 0")
        case True
        have "q = 2 * k"
          unfolding q_def max_pos_def by (rule if_P[OF True])
        moreover have "b1 = b[k := Node (data1 (b ! p)) (data1 (b ! k)),
                p := Node (data0 (b ! p)) (data0 (b ! k))]"
          unfolding b1_def by (rule if_P[OF True])
        ultimately show ?thesis
          using slot_swap_low_high[OF pk(4) pk(3) pk(2), of i] by simp
      next
        case False
        have "q = 2 * k + 1"
          unfolding q_def max_pos_def by (rule if_not_P[OF False])
        moreover have "b1 = b[k := Node (data0 (b ! k)) (data1 (b ! p)),
                p := Node (data0 (b ! p)) (data1 (b ! k))]"
          unfolding b1_def by (rule if_not_P[OF False])
        ultimately show ?thesis
          using slot_swap_high[OF pk(4) pk(3) pk(2), of i] by simp
      qed
      have ge: "f (slot b (2 * p + 1)) (slot b q) \<le> 0"
        using swap cmp_flip[OF ok] by blast
      have len: "length b1 = length b" by (simp add: b1_def)
      have lo: "\<forall>i<c. f (slot b1 0) (slot b1 i) \<le> 0"
        using LO pk q by (auto simp: s1)
      have up: "\<forall>i<c. i \<noteq> max_pos sz c p \<longrightarrow> f (slot b1 i) (slot b1 1) \<le> 0"
        unfolding mp
      proof (intro allI impI)
        fix i assume i: "i < c" "i \<noteq> 2 * p + 1"
        show "f (slot b1 i) (slot b1 1) \<le> 0"
        proof (cases "p = 0")
          case True
          then have r: "slot b1 1 = slot b q" by (simp add: s1)
          show ?thesis
          proof (cases "i = q")
            case True
            then show ?thesis using r ge \<open>p = 0\<close> i by (simp add: s1)
          next
            case False
            then have "slot b1 i = slot b i" using i by (simp add: s1)
            moreover have "f (slot b i) (slot b 1) \<le> 0" using UP i False by (simp add: q_def)
            ultimately show ?thesis using r ge \<open>p = 0\<close> cmp_trans[OF ok]
              by (metis One_nat_def add.commute mult_0_right plus_1_eq_Suc add_0)
          qed
        next
          case False
          then have r: "slot b1 1 = slot b 1" using q by (simp add: s1)
          show ?thesis
          proof (cases "i = q")
            case True
            then show ?thesis using r UP pk q i by (simp add: s1 q_def)
          next
            case False
            then show ?thesis using r UP i by (simp add: s1 q_def)
          qed
        qed
      qed
      have "length (float_up_max_loop f sz c b1 p) = length b1 \<and>
        (\<forall>i<c. f (slot (float_up_max_loop f sz c b1 p) 0) (slot (float_up_max_loop f sz c b1 p) i) \<le> 0) \<and>
        (\<forall>i<c. f (slot (float_up_max_loop f sz c b1 p) i) (slot (float_up_max_loop f sz c b1 p) 1) \<le> 0)"
      proof (cases "k = sz - 1 \<and> c mod 2 \<noteq> 0")
        case True
        have "q = 2 * k"
          unfolding q_def max_pos_def by (rule if_P[OF True])
        then have sw: "\<not> f (data0 (b ! k)) (data1 (b ! p)) < 0"
          using swap by (simp add: slot_even slot_odd slot_odd')
        have b1': "b1 = b[k := Node (data1 (b ! p)) (data1 (b ! k)),
                p := Node (data0 (b ! p)) (data0 (b ! k))]"
          unfolding b1_def by (rule if_P[OF True])
        show ?thesis
          using "1.IH"(1)[OF kpos p_def refl refl True sw ok, folded b1'] pk sl cs c3 len up lo
          by simp
      next
        case False
        have "q = 2 * k + 1"
          unfolding q_def max_pos_def by (rule if_not_P[OF False])
        then have sw: "\<not> f (data1 (b ! k)) (data1 (b ! p)) < 0"
          using swap by (simp add: slot_even slot_odd slot_odd')
        have b1': "b1 = b[k := Node (data0 (b ! k)) (data1 (b ! p)),
                p := Node (data0 (b ! p)) (data1 (b ! k))]"
          unfolding b1_def by (rule if_not_P[OF False])
        show ?thesis
          using "1.IH"(2)[OF kpos p_def refl refl False sw ok, folded b1'] pk sl cs c3 len up lo
          by simp
      qed
      then show ?thesis using eq len by simp
    qed
  qed
qed

lemma new_inv:
  assumes "cmp_ok f" and "cap < 2 ^ 64" and "ih_new mo co cap (Some f) = Some h"
  shows "heap_inv h \<and> count h = 0"
  using assms
  by (auto simp: ih_new_def UINT64_MAX_def heap_inv_def Let_def split: if_splits)

lemma wrap_times_4:
  assumes "0 < c" and "c < 2 ^ 63" and "\<not> wrap (c * 4) < 2 * c"
  shows "c * 4 < 2 ^ 64"
proof (rule ccontr)
  assume "\<not> c * 4 < 2 ^ 64"
  then have "2 ^ 64 \<le> c * 4" "c * 4 < 2 * 2 ^ 64" using assms(2) by simp_all
  then have "(c * 4) mod 2 ^ 64 = c * 4 - 2 ^ 64"
    by (simp add: mod_if)
  then show False using assms by (simp add: wrap_def)
qed

lemma wrap_times_4_neq:
  assumes "0 < c" and "c < 2 ^ 63"
  shows "wrap (c * 4) \<noteq> c"
proof
  assume eq: "wrap (c * 4) = c"
  show False
  proof (cases "c * 4 < 2 ^ 64")
    case True
    then show False using eq assms(1) by (simp add: wrap_def)
  next
    case False
    then have "2 ^ 64 \<le> c * 4" "c * 4 < 2 * 2 ^ 64" using assms(2) by simp_all
    then have "(c * 4) mod 2 ^ 64 = c * 4 - 2 ^ 64"
      by (simp add: mod_if)
    with eq have "3 * c = 2 ^ 64" using False by (simp add: wrap_def)
    then have "(3 * c) mod 3 = (2 ^ 64 :: nat) mod 3" by simp
    then show False by simp
  qed
qed

lemma nth_resized:
  "j < length buf \<Longrightarrow> j < n \<Longrightarrow>
   memset_nodes (realloc_nodes buf n fresh) (length buf) m ! j = buf ! j"
  by (simp add: memset_nodes_def realloc_nodes_def)

lemma length_resized:
  "length (memset_nodes (realloc_nodes buf n fresh) off m) = n"
  by (simp add: memset_nodes_def realloc_nodes_def)

lemma resize_full:
  assumes inv: "heap_inv h" and full: "ih_full h"
    and r: "ih_resize ra h (wrap (ih_capacity h * 4)) = (True, h1)"
  shows "heap_inv h1 \<and> size_h h1 < capacity h1 \<and> count h1 = count h \<and>
         (\<forall>i<count h. slot (buffer h1) i = slot (buffer h) i)"
proof -
  define c where "c = capacity h"
  from inv full have sz: "size_h h = c" and cnt: "count h = 2 * c" and c0: "0 < c"
    and c63: "c < 2 ^ 63" and len: "length (buffer h) = c"
    by (auto simp: heap_inv_def ih_full_def c_def)
  have nlt: "\<not> wrap (c * 4) < 2 * c"
  proof
    assume lt: "wrap (c * 4) < 2 * c"
    have "wrap (c * 4) \<noteq> c"
      using wrap_times_4_neq[OF c0 c63] .
    then have "ih_resize ra h (wrap (ih_capacity h * 4)) = (False, h)"
      using lt cnt by (simp add: ih_resize_def ih_capacity_def ih_count_def c_def)
    with r show False by simp
  qed
  have c4: "c * 4 < 2 ^ 64" using wrap_times_4[OF c0 c63 nlt] .
  then have w: "wrap (ih_capacity h * 4) = c * 4" by (simp add: wrap_def ih_capacity_def c_def)
  have ne: "c \<noteq> c * 4" using c0 by simp
  from r obtain fresh where "ra = Some fresh"
    and h1: "h1 = h\<lparr>buffer := memset_nodes (realloc_nodes (buffer h) (2 * c) fresh) c c,
                     capacity := 2 * c\<rparr>"
    unfolding w using ne cnt
    by (auto simp: ih_resize_def ih_capacity_def ih_count_def Let_def c_def
        split: if_splits option.splits)
  have nth: "buffer h1 ! j = buffer h ! j" if "j < c" for j
    using that nth_resized[of j "buffer h" "2 * c" fresh c] len by (simp add: h1)
  have sl: "slot (buffer h1) i = slot (buffer h) i" if "i < 2 * c" for i
  proof -
    from that have "i div 2 < c" by simp
    then show ?thesis by (simp add: slot_def nth)
  qed
  have "2 * c < 2 ^ 63" using c4 by simp
  then show ?thesis
    using inv c0 sz cnt sl
    by (simp add: heap_inv_def h1 length_resized c_def)
qed

lemma place_facts:
  assumes inv: "heap_inv h" and nf: "\<not> ih_full h" and h1: "h1 = insert_place h e"
  obtains pe where
    "cmp h1 = cmp h" "capacity h1 = capacity h" "length (buffer h1) = capacity h"
    "count h1 = count h + 1" "1 \<le> size_h h1" "size_h h1 \<le> capacity h"
    "count h1 = 2 * size_h h1 \<or> count h1 + 1 = 2 * size_h h1"
    "pe < count h1" "pe = 2 * (size_h h1 - 1) \<or> pe = 2 * (size_h h1 - 1) + 1"
    "slot (buffer h1) pe = e"
    "\<forall>i<count h1. i \<noteq> pe \<longrightarrow> (\<exists>i'<count h. slot (buffer h1) i = slot (buffer h) i')"
    "\<forall>i<2 * (size_h h1 - 1). slot (buffer h1) i = slot (buffer h) i"
    "pe = 2 * (size_h h1 - 1) + 1 \<longrightarrow> cmp h (slot (buffer h1) (2 * (size_h h1 - 1))) e \<le> 0"
    "pe = 2 * (size_h h1 - 1) \<and> count h1 mod 2 = 0 \<longrightarrow>
       cmp h e (slot (buffer h1) (2 * (size_h h1 - 1) + 1)) \<le> 0"
proof -
  let ?b = "buffer h" and ?n = "size_h h"
  from inv have ok: "cmp_ok (cmp h)" and len: "length ?b = capacity h"
    and nle: "?n \<le> capacity h"
    and cs: "count h = 2 * ?n \<or> count h + 1 = 2 * ?n"
    by (auto simp: heap_inv_def)
  show thesis
  proof (cases "count h mod 2 = 0")
    case True
    with cs have c: "count h = 2 * ?n" by presburger
    with nf True have nlt: "?n < capacity h" by (simp add: ih_full_def)
    have h1': "h1 = h\<lparr>buffer := ?b[?n := Node e 0], size_h := ?n + 1, count := count h + 1\<rparr>"
      using True by (simp add: h1 insert_place_def ih_count_def)
    have sl: "slot (buffer h1) i =
        (if i = 2 * ?n then e else if i = 2 * ?n + 1 then 0 else slot ?b i)" for i
      using nlt len by (simp add: h1' slot_update)
    have sz: "size_h h1 = ?n + 1" and ct: "count h1 = 2 * ?n + 1" by (simp_all add: h1' c)
    have old: "\<forall>i<count h1. i \<noteq> 2 * ?n \<longrightarrow> (\<exists>i'<count h. slot (buffer h1) i = slot ?b i')"
    proof (intro allI impI)
      fix i assume "i < count h1" "i \<noteq> 2 * ?n"
      then have "i < count h" "slot (buffer h1) i = slot ?b i" by (simp_all add: ct c sl)
      then show "\<exists>i'<count h. slot (buffer h1) i = slot ?b i'" by blast
    qed
    show thesis
    proof (rule that[of "2 * ?n"])
      show "\<forall>i<count h1. i \<noteq> 2 * ?n \<longrightarrow> (\<exists>i'<count h. slot (buffer h1) i = slot ?b i')"
        by (rule old)
    qed (use c nlt len in \<open>simp_all add: sz ct sl\<close>, simp_all add: h1')
  next
    case False
    with cs have c: "count h + 1 = 2 * ?n" by presburger
    then have n1: "1 \<le> ?n" by simp
    let ?l = "data0 (?b ! (?n - 1))"
    have lsl: "?l = slot ?b (2 * (?n - 1))" by (simp add: slot_even)
    have nl: "?n - 1 < length ?b" using n1 nle len by simp
    have ct0: "count h = 2 * (?n - 1) + 1" using c by simp
    show thesis
    proof (cases "cmp h ?l e > 0")
      case swap: True
      have h1': "h1 = h\<lparr>buffer := ?b[?n - 1 := Node e ?l], count := count h + 1\<rparr>"
        using False swap by (simp add: h1 insert_place_def ih_count_def Let_def)
      have sl: "slot (buffer h1) i =
          (if i = 2 * (?n - 1) then e else if i = 2 * (?n - 1) + 1 then ?l else slot ?b i)" for i
        using nl by (simp add: h1' slot_update)
      have sz: "size_h h1 = ?n" and ct: "count h1 = 2 * ?n" using c by (simp_all add: h1')
      have le: "cmp h e ?l \<le> 0" using cmp_flip_gt[OF ok swap] .
      have old: "\<forall>i<count h1. i \<noteq> 2 * (?n - 1) \<longrightarrow>
           (\<exists>i'<count h. slot (buffer h1) i = slot ?b i')"
      proof (intro allI impI)
        fix i assume i: "i < count h1" "i \<noteq> 2 * (?n - 1)"
        show "\<exists>i'<count h. slot (buffer h1) i = slot ?b i'"
        proof (cases "i = 2 * (?n - 1) + 1")
          case True
          then have "slot (buffer h1) i = slot ?b (2 * (?n - 1))" by (simp add: sl slot_even)
          moreover have "2 * (?n - 1) < count h" using ct0 by simp
          ultimately show ?thesis by blast
        next
          case False
          with i have "slot (buffer h1) i = slot ?b i" by (simp add: sl)
          moreover from i False have "i < count h" using c n1 unfolding ct by arith
          ultimately show ?thesis by blast
        qed
      qed
      show thesis
      proof (rule that[of "2 * (?n - 1)"])
        show "\<forall>i<count h1. i \<noteq> 2 * (?n - 1) \<longrightarrow>
           (\<exists>i'<count h. slot (buffer h1) i = slot ?b i')"
          by (rule old)
      qed (use c n1 nle len le in \<open>simp_all add: sz ct sl\<close>, simp_all add: h1')
    next
      case noswap: False
      have h1': "h1 = h\<lparr>buffer := ?b[?n - 1 := Node ?l e], count := count h + 1\<rparr>"
        using False noswap by (simp add: h1 insert_place_def ih_count_def Let_def)
      have sl: "slot (buffer h1) i =
          (if i = 2 * (?n - 1) then ?l else if i = 2 * (?n - 1) + 1 then e else slot ?b i)" for i
        using nl by (simp add: h1' slot_update)
      have sz: "size_h h1 = ?n" and ct: "count h1 = 2 * ?n" using c by (simp_all add: h1')
      have le: "cmp h ?l e \<le> 0" using noswap by simp
      have old: "\<forall>i<count h1. i \<noteq> 2 * (?n - 1) + 1 \<longrightarrow>
           (\<exists>i'<count h. slot (buffer h1) i = slot ?b i')"
      proof (intro allI impI)
        fix i assume i: "i < count h1" "i \<noteq> 2 * (?n - 1) + 1"
        then have "i < count h" using c n1 unfolding ct by arith
        moreover have "slot (buffer h1) i = slot ?b i" using i by (simp add: sl slot_even)
        ultimately show "\<exists>i'<count h. slot (buffer h1) i = slot ?b i'" by blast
      qed
      show thesis
      proof (rule that[of "2 * (?n - 1) + 1"])
        show "\<forall>i<count h1. i \<noteq> 2 * (?n - 1) + 1 \<longrightarrow>
           (\<exists>i'<count h. slot (buffer h1) i = slot ?b i')"
          by (rule old)
      qed (use c n1 nle len le in \<open>simp_all add: sz ct sl\<close>, simp_all add: h1')
    qed
  qed
qed

lemma insert_open_inv:
  assumes inv: "heap_inv h" and nf: "\<not> ih_full h"
  shows "heap_inv (insert_float (insert_place h e) e) \<and>
         count (insert_float (insert_place h e) e) = count h + 1"
proof -
  define h1 where "h1 = insert_place h e"
  let ?f = "cmp h" and ?b = "buffer h1" and ?c = "count h1" and ?k = "size_h h1 - 1"
  from inv have ok: "cmp_ok ?f" and cap: "0 < capacity h" "capacity h < 2 ^ 63"
    and LO0: "\<forall>i<count h. ?f (slot (buffer h) 0) (slot (buffer h) i) \<le> 0"
    and UP0: "2 \<le> count h \<longrightarrow> (\<forall>i<count h. ?f (slot (buffer h) i) (slot (buffer h) 1) \<le> 0)"
    by (auto simp: heap_inv_def)
  obtain pe where f1: "cmp h1 = ?f" and f2: "capacity h1 = capacity h"
    and f3: "length ?b = capacity h" and f4: "?c = count h + 1"
    and f5: "1 \<le> size_h h1" and f6: "size_h h1 \<le> capacity h"
    and f7: "?c = 2 * size_h h1 \<or> ?c + 1 = 2 * size_h h1"
    and f8: "pe < ?c" and f9: "pe = 2 * ?k \<or> pe = 2 * ?k + 1"
    and f10: "slot ?b pe = e"
    and f11: "\<forall>i<?c. i \<noteq> pe \<longrightarrow> (\<exists>i'<count h. slot ?b i = slot (buffer h) i')"
    and f12: "\<forall>i<2 * ?k. slot ?b i = slot (buffer h) i"
    and f13: "pe = 2 * ?k + 1 \<longrightarrow> ?f (slot ?b (2 * ?k)) e \<le> 0"
    and f14: "pe = 2 * ?k \<and> ?c mod 2 = 0 \<longrightarrow> ?f e (slot ?b (2 * ?k + 1)) \<le> 0"
    by (rule place_facts[OF inv nf h1_def])
  have base: "cmp_ok (cmp h1)" "0 < capacity h1" "capacity h1 < 2 ^ 63"
    "length ?b = capacity h1" "size_h h1 \<le> capacity h1"
    using ok cap f1 f2 f3 f6 by simp_all
  show ?thesis
  proof (cases "?c \<le> 2")
    case small: True
    have eq: "insert_float h1 e = h1" using small by (simp add: insert_float_def ih_count_def)
    have k0: "?k = 0" using small f7 f5 by arith
    have pair: "?f (slot ?b 0) (slot ?b 1) \<le> 0" if "?c = 2"
    proof -
      from that have ev: "?c mod 2 = 0" by simp
      from f9 k0 have "pe = 0 \<or> pe = 1" by simp
      then show ?thesis
      proof
        assume "pe = 0"
        with f14 ev k0 f10 show ?thesis by simp
      next
        assume "pe = 1"
        with f13 k0 f10 show ?thesis by simp
      qed
    qed
    have lo: "\<forall>i<?c. cmp h1 (slot ?b 0) (slot ?b i) \<le> 0"
    proof (intro allI impI)
      fix i assume "i < ?c"
      with small have "i = 0 \<or> (i = 1 \<and> ?c = 2)" by arith
      then show "cmp h1 (slot ?b 0) (slot ?b i) \<le> 0"
        using pair cmp_refl[OF ok] f1 by auto
    qed
    have up: "2 \<le> ?c \<longrightarrow> (\<forall>i<?c. cmp h1 (slot ?b i) (slot ?b 1) \<le> 0)"
    proof (intro allI impI)
      fix i assume "2 \<le> ?c" "i < ?c"
      with small have "?c = 2" "i = 0 \<or> i = 1" by arith+
      then show "cmp h1 (slot ?b i) (slot ?b 1) \<le> 0"
        using pair cmp_refl[OF ok] f1 by auto
    qed
    have "heap_inv h1"
      unfolding heap_inv_def using base f7 lo up by simp
    then show ?thesis using eq f4 by (simp add: h1_def)
  next
    case big: False
    then have c3: "3 \<le> ?c" and old2: "2 \<le> count h" using f4 by simp_all
    have k1: "1 \<le> ?k" using c3 f7 by arith
    define w where "w = ?k div 2"
    have wk: "2 * w + 1 < 2 * ?k" using k1 by (simp add: w_def) arith
    have par0: "data0 (?b ! ((size_h h1 - 1) div 2)) = slot ?b (2 * w)"
      and par1: "data1 (?b ! ((size_h h1 - 1) div 2)) = slot ?b (2 * w + 1)"
      by (simp_all add: w_def slot_even slot_odd slot_odd')
    have r0: "slot ?b 0 = slot (buffer h) 0" and r1: "slot ?b 1 = slot (buffer h) 1"
      using f12 k1 by simp_all
    have others: "?f (slot ?b 0) (slot ?b i) \<le> 0 \<and> ?f (slot ?b i) (slot ?b 1) \<le> 0"
      if "i < ?c" "i \<noteq> pe" for i
    proof -
      from f11 that obtain i' where "i' < count h" "slot ?b i = slot (buffer h) i'" by blast
      then show ?thesis using LO0 UP0 old2 r0 r1 by simp
    qed
    have wlt: "2 * w < ?c" "2 * w + 1 < ?c" "2 * w \<noteq> pe" "2 * w + 1 \<noteq> pe"
      using wk f9 f8 by auto
    have wp0: "?f (slot ?b 0) (slot ?b (2 * w)) \<le> 0" "?f (slot ?b (2 * w)) (slot ?b 1) \<le> 0"
      using others[OF wlt(1) wlt(3)] by simp_all
    have wp1: "?f (slot ?b 0) (slot ?b (2 * w + 1)) \<le> 0"
      "?f (slot ?b (2 * w + 1)) (slot ?b 1) \<le> 0"
      using others[OF wlt(2) wlt(4)] by simp_all
    have kl: "?k < length ?b" "?k < size_h h1" "2 * ?k < ?c" "size_h h1 \<le> length ?b"
      using f3 f5 f6 f7 by auto
    have fin: "heap_inv (h1\<lparr>buffer := b'\<rparr>)"
      if "length b' = length ?b" "\<forall>i<?c. ?f (slot b' 0) (slot b' i) \<le> 0"
         "\<forall>i<?c. ?f (slot b' i) (slot b' 1) \<le> 0" for b'
      unfolding heap_inv_def using base f7 f1 that by simp
    show ?thesis
    proof (cases "?f (slot ?b (2 * w)) e > 0")
      case A: True
      have eq: "insert_float h1 e = h1\<lparr>buffer := float_up_min_loop ?f ?b ?k\<rparr>"
        unfolding insert_float_def Let_def ih_count_def f1 par0 par1 ih_impl_float_up_min_def
        using big A by simp
      have e_up: "?f e (slot ?b 1) \<le> 0"
        using cmp_trans[OF ok cmp_flip_gt[OF ok A] wp0(2)] .
      have lox: "\<forall>i<?c. i \<noteq> 2 * ?k \<longrightarrow> ?f (slot ?b 0) (slot ?b i) \<le> 0"
      proof (intro allI impI)
        fix i assume i: "i < ?c" "i \<noteq> 2 * ?k"
        show "?f (slot ?b 0) (slot ?b i) \<le> 0"
        proof (cases "i = pe")
          case True
          with i f9 have pe: "pe = 2 * ?k + 1" by simp
          then have "2 * ?k < ?c" "2 * ?k \<noteq> pe" using f8 by simp_all
          then have "?f (slot ?b 0) (slot ?b (2 * ?k)) \<le> 0" using others by blast
          moreover have "?f (slot ?b (2 * ?k)) e \<le> 0" using f13 pe by simp
          ultimately show ?thesis using cmp_trans[OF ok] f10 True by blast
        next
          case False
          then show ?thesis using others i by blast
        qed
      qed
      have upa: "\<forall>i<?c. ?f (slot ?b i) (slot ?b 1) \<le> 0"
      proof (intro allI impI)
        fix i assume i: "i < ?c"
        show "?f (slot ?b i) (slot ?b 1) \<le> 0"
          using others[OF i] e_up f10 by (cases "i = pe") simp_all
      qed
      from float_up_min_bounds[OF ok kl(1) kl(3) _ lox upa] c3
      have "heap_inv (h1\<lparr>buffer := float_up_min_loop ?f ?b ?k\<rparr>)"
        using fin by simp
      then show ?thesis using eq f4 by (simp add: h1_def)
    next
      case nA: False
      then have e_lo0: "?f (slot ?b (2 * w)) e \<le> 0" by simp
      have e_lo: "?f (slot ?b 0) e \<le> 0"
        using cmp_trans[OF ok wp0(1) e_lo0] .
      have loa: "\<forall>i<?c. ?f (slot ?b 0) (slot ?b i) \<le> 0"
      proof (intro allI impI)
        fix i assume i: "i < ?c"
        show "?f (slot ?b 0) (slot ?b i) \<le> 0"
          using others[OF i] e_lo f10 by (cases "i = pe") simp_all
      qed
      show ?thesis
      proof (cases "?f (slot ?b (2 * w + 1)) e < 0")
        case B: True
        have eq: "insert_float h1 e =
            h1\<lparr>buffer := float_up_max_loop ?f (size_h h1) ?c ?b ?k\<rparr>"
          unfolding insert_float_def Let_def ih_count_def f1 par0 par1 ih_impl_float_up_max_def
          using big nA B by simp
        have upx: "\<forall>i<?c. i \<noteq> max_pos (size_h h1) ?c ?k \<longrightarrow> ?f (slot ?b i) (slot ?b 1) \<le> 0"
        proof (intro allI impI)
          fix i assume i: "i < ?c" "i \<noteq> max_pos (size_h h1) ?c ?k"
          show "?f (slot ?b i) (slot ?b 1) \<le> 0"
          proof (cases "i = pe")
            case True
            have ev: "?c mod 2 = 0"
            proof (rule ccontr)
              assume "?c mod 2 \<noteq> 0"
              then have "max_pos (size_h h1) ?c ?k = 2 * ?k" "?c = 2 * ?k + 1"
                using f7 f5 by (auto simp: max_pos_def)
              with i True f8 f9 show False by simp
            qed
            then have mp: "max_pos (size_h h1) ?c ?k = 2 * ?k + 1" by (simp add: max_pos_def)
            with i True f9 have pe: "pe = 2 * ?k" by simp
            have c2k: "?c = 2 * ?k + 2" using ev f7 f5 by presburger
            then have "2 * ?k + 1 < ?c" "2 * ?k + 1 \<noteq> pe" using pe by simp_all
            then have "?f (slot ?b (2 * ?k + 1)) (slot ?b 1) \<le> 0" using others by blast
            moreover have "?f e (slot ?b (2 * ?k + 1)) \<le> 0" using f14 pe ev by simp
            ultimately show ?thesis using cmp_trans[OF ok] f10 True by blast
          next
            case False
            then show ?thesis using others i by blast
          qed
        qed
        from float_up_max_bounds[OF ok kl(2) kl(4) f7 c3 upx loa]
        have "heap_inv (h1\<lparr>buffer := float_up_max_loop ?f (size_h h1) ?c ?b ?k\<rparr>)"
          using fin by simp
        then show ?thesis using eq f4 by (simp add: h1_def)
      next
        case C: False
        have eq: "insert_float h1 e = h1"
          unfolding insert_float_def Let_def ih_count_def f1 par0 par1
          using big nA C by simp
        have e_up: "?f e (slot ?b 1) \<le> 0"
          using cmp_trans[OF ok cmp_flip[OF ok C] wp1(2)] .
        have upa: "\<forall>i<?c. ?f (slot ?b i) (slot ?b 1) \<le> 0"
        proof (intro allI impI)
          fix i assume i: "i < ?c"
          show "?f (slot ?b i) (slot ?b 1) \<le> 0"
            using others[OF i] e_up f10 by (cases "i = pe") simp_all
        qed
        have "heap_inv (h1\<lparr>buffer := ?b\<rparr>)" using fin[OF refl loa upa] .
        then show ?thesis using eq f4 by (simp add: h1_def)
      qed
    qed
  qed
qed

lemma cmp_insert_place [simp]: "cmp (insert_place h e) = cmp h"
  by (simp add: insert_place_def Let_def)

lemma cmp_insert_float [simp]: "cmp (insert_float h e) = cmp h"
  by (simp add: insert_float_def Let_def ih_impl_float_up_min_def ih_impl_float_up_max_def)

lemma cmp_resize: "ih_resize ra h n = (ok, h1) \<Longrightarrow> cmp h1 = cmp h"
  by (auto simp: ih_resize_def Let_def split: if_splits option.splits)

lemma insert_inv:
  assumes inv: "heap_inv h" and ins: "ih_insert ra h e = (True, h')"
  shows "heap_inv h' \<and> count h' = count h + 1 \<and> cmp h' = cmp h"
proof (cases "ih_full h")
  case True
  obtain ok h1 where r: "ih_resize ra h (wrap (ih_capacity h * 4)) = (ok, h1)"
    by (cases "ih_resize ra h (wrap (ih_capacity h * 4))")
  from ins True r have ok: "ok" and h': "h' = insert_float (insert_place h1 e) e"
    by (auto simp: ih_insert_def split: if_splits)
  from r ok have r': "ih_resize ra h (wrap (ih_capacity h * 4)) = (True, h1)" by simp
  from resize_full[OF inv True r'] have inv1: "heap_inv h1" and "size_h h1 < capacity h1"
    and c1: "count h1 = count h" by blast+
  then have nf: "\<not> ih_full h1" by (simp add: ih_full_def)
  from insert_open_inv[OF inv1 nf, of e] c1 cmp_resize[OF r] show ?thesis by (simp add: h')
next
  case False
  with ins have h': "h' = insert_float (insert_place h e) e"
    by (auto simp: ih_insert_def)
  from insert_open_inv[OF inv False, of e] show ?thesis by (simp add: h')
qed

lemma insert_seq_inv:
  "heap_inv h \<Longrightarrow> insert_seq h ops = Some h' \<Longrightarrow>
   heap_inv h' \<and> count h' = count h + length ops \<and> cmp h' = cmp h"
proof (induction ops arbitrary: h)
  case Nil
  then show ?case by simp
next
  case (Cons op ops)
  obtain ra x where op: "op = (ra, x)" by (cases op)
  obtain ok h1 where i: "ih_insert ra h x = (ok, h1)" by (cases "ih_insert ra h x")
  from Cons.prems(2) op i have ok: "ok" and rest: "insert_seq h1 ops = Some h'"
    by (auto split: if_splits bool.splits)
  from insert_inv[OF Cons.prems(1)] i ok
  have inv1: "heap_inv h1" and c1: "count h1 = count h + 1" and f1: "cmp h1 = cmp h" by simp_all
  from Cons.IH[OF inv1 rest] c1 f1 show ?case by simp
qed

lemma elem_slot: "elem h i = slot (buffer h) i"
  by (simp add: elem_def slot_def)

subsection \<open>Insertion keeps the elements\<close>

lemma slots_swap:
  assumes "p < c" "q < c"
    and "\<And>i. slot b1 i = (if i = p then slot b q else if i = q then slot b p else slot b i)"
  shows "mset (slots b1 c) = mset (slots b c)"
proof -
  have eq: "slots b1 c = (slots b c)[q := slots b c ! p, p := slots b c ! q]"
    using assms(1,2) by (intro nth_equalityI) (auto simp: slots_def assms(3) nth_list_update)
  have "mset ((slots b c)[q := slots b c ! p, p := slots b c ! q]) = mset (slots b c)"
    by (rule mset_swap) (simp_all add: slots_def assms(1,2))
  then show ?thesis by (simp only: eq)
qed

lemma float_up_min_mset:
  "k < length b \<Longrightarrow> 2 * k < c \<Longrightarrow>
   mset (slots (float_up_min_loop f b k) c) = mset (slots b c)"
proof (induction f b k rule: float_up_min_loop.induct)
  case (1 f b k)
  show ?case
  proof (cases "k > 0")
    case False
    then show ?thesis by (subst float_up_min_loop.simps) simp
  next
    case kpos: True
    define p where "p = (k - 1) div 2"
    have pk: "p \<noteq> k" "p < length b" "2 * p < c"
      using kpos "1.prems" by (auto simp: p_def)
    show ?thesis
    proof (cases "f (data0 (b ! k)) (data0 (b ! p)) \<ge> 0")
      case True
      then show ?thesis
        using kpos by (subst float_up_min_loop.simps) (simp add: p_def Let_def)
    next
      case swap: False
      define b1 where "b1 = b[k := Node (data0 (b ! p)) (data1 (b ! k)),
                   p := Node (data0 (b ! k)) (data1 (b ! p))]"
      have eq: "float_up_min_loop f b k = float_up_min_loop f b1 p"
        using kpos swap
        by (rule_tac trans[OF float_up_min_loop.simps]) (simp add: p_def Let_def b1_def)
      have s1: "\<And>i. slot b1 i =
         (if i = 2 * p then slot b (2 * k) else if i = 2 * k then slot b (2 * p) else slot b i)"
        unfolding b1_def using slot_swap_low[OF "1.prems"(1) pk(2) pk(1)] by simp
      have "mset (slots (float_up_min_loop f b1 p) c) = mset (slots b1 c)"
        using "1.IH"[OF kpos p_def refl refl _, folded b1_def] swap pk by (simp add: b1_def)
      also have "\<dots> = mset (slots b c)"
        using slots_swap[OF pk(3) "1.prems"(2) s1] .
      finally show ?thesis using eq by simp
    qed
  qed
qed

lemma float_up_max_mset:
  "k < sz \<Longrightarrow> sz \<le> length b \<Longrightarrow> c = 2 * sz \<or> c + 1 = 2 * sz \<Longrightarrow>
   mset (slots (float_up_max_loop f sz c b k) c) = mset (slots b c)"
proof (induction f sz c b k rule: float_up_max_loop.induct)
  case (1 f sz c b k)
  from "1.prems" have ks: "k < sz" and sl: "sz \<le> length b"
    and cs: "c = 2 * sz \<or> c + 1 = 2 * sz" by blast+
  show ?case
  proof (cases "k > 0")
    case False
    then show ?thesis by (subst float_up_max_loop.simps) simp
  next
    case kpos: True
    define p where "p = (k - 1) div 2"
    define q where "q = max_pos sz c k"
    have pk: "p < k" "p \<noteq> k" "p < length b" "k < length b" "p < sz" "2 * p + 1 < c"
      using kpos ks sl cs by (auto simp: p_def)
    have qc: "q < c" unfolding q_def using max_pos_less[OF ks cs] .
    show ?thesis
    proof (cases "f (slot b q) (slot b (2 * p + 1)) < 0")
      case True
      then show ?thesis by (subst float_up_max_step[OF kpos]) (simp add: p_def q_def)
    next
      case swap: False
      define b1 where "b1 =
        (if k = sz - 1 \<and> c mod 2 \<noteq> 0
         then b[k := Node (data1 (b ! p)) (data1 (b ! k)),
                p := Node (data0 (b ! p)) (data0 (b ! k))]
         else b[k := Node (data0 (b ! k)) (data1 (b ! p)),
                p := Node (data0 (b ! p)) (data1 (b ! k))])"
      have eq: "float_up_max_loop f sz c b k = float_up_max_loop f sz c b1 p"
        using swap by (subst float_up_max_step[OF kpos]) (simp add: p_def q_def b1_def)
      have len: "length b1 = length b" by (simp add: b1_def)
      have s1: "slot b1 i =
         (if i = 2 * p + 1 then slot b q else if i = q then slot b (2 * p + 1) else slot b i)"
        for i
      proof (cases "k = sz - 1 \<and> c mod 2 \<noteq> 0")
        case True
        have "q = 2 * k"
          unfolding q_def max_pos_def by (rule if_P[OF True])
        moreover have "b1 = b[k := Node (data1 (b ! p)) (data1 (b ! k)),
                p := Node (data0 (b ! p)) (data0 (b ! k))]"
          unfolding b1_def by (rule if_P[OF True])
        ultimately show ?thesis
          using slot_swap_low_high[OF pk(4) pk(3) pk(2), of i] by simp
      next
        case False
        have "q = 2 * k + 1"
          unfolding q_def max_pos_def by (rule if_not_P[OF False])
        moreover have "b1 = b[k := Node (data0 (b ! k)) (data1 (b ! p)),
                p := Node (data0 (b ! p)) (data1 (b ! k))]"
          unfolding b1_def by (rule if_not_P[OF False])
        ultimately show ?thesis
          using slot_swap_high[OF pk(4) pk(3) pk(2), of i] by simp
      qed
      have "mset (slots (float_up_max_loop f sz c b1 p) c) = mset (slots b1 c)"
      proof (cases "k = sz - 1 \<and> c mod 2 \<noteq> 0")
        case True
        have "q = 2 * k"
          unfolding q_def max_pos_def by (rule if_P[OF True])
        then have sw: "\<not> f (data0 (b ! k)) (data1 (b ! p)) < 0"
          using swap by (simp add: slot_even slot_odd slot_odd')
        have b1': "b1 = b[k := Node (data1 (b ! p)) (data1 (b ! k)),
                p := Node (data0 (b ! p)) (data0 (b ! k))]"
          unfolding b1_def by (rule if_P[OF True])
        show ?thesis
          using "1.IH"(1)[OF kpos p_def refl refl True sw, folded b1'] pk sl cs len by simp
      next
        case False
        have "q = 2 * k + 1"
          unfolding q_def max_pos_def by (rule if_not_P[OF False])
        then have sw: "\<not> f (data1 (b ! k)) (data1 (b ! p)) < 0"
          using swap by (simp add: slot_even slot_odd slot_odd')
        have b1': "b1 = b[k := Node (data0 (b ! k)) (data1 (b ! p)),
                p := Node (data0 (b ! p)) (data1 (b ! k))]"
          unfolding b1_def by (rule if_not_P[OF False])
        show ?thesis
          using "1.IH"(2)[OF kpos p_def refl refl False sw, folded b1'] pk sl cs len by simp
      qed
      also have "\<dots> = mset (slots b c)"
        using slots_swap[OF pk(6) qc s1] .
      finally show ?thesis using eq by simp
    qed
  qed
qed

lemma insert_float_mset:
  assumes "1 \<le> size_h h1" and "size_h h1 \<le> length (buffer h1)"
    and "count h1 = 2 * size_h h1 \<or> count h1 + 1 = 2 * size_h h1"
  shows "mset (slots (buffer (insert_float h1 e)) (count h1)) =
         mset (slots (buffer h1) (count h1))"
proof -
  have k: "size_h h1 - 1 < length (buffer h1)" "size_h h1 - 1 < size_h h1"
    "2 * (size_h h1 - 1) < count h1"
    using assms by auto
  show ?thesis
    using float_up_min_mset[OF k(1) k(3)] float_up_max_mset[OF k(2) assms(2,3)]
    by (simp add: insert_float_def Let_def ih_impl_float_up_min_def ih_impl_float_up_max_def)
qed

lemma slots_Suc: "slots b (Suc c) = slots b c @ [slot b c]"
  by (simp add: slots_def)

lemma slots_cong: "(\<And>i. i < c \<Longrightarrow> slot b1 i = slot b i) \<Longrightarrow> slots b1 c = slots b c"
  by (simp add: slots_def)

lemma place_mset:
  assumes inv: "heap_inv h" and nf: "\<not> ih_full h"
  shows "mset (slots (buffer (insert_place h e)) (count h + 1)) =
         add_mset e (mset (slots (buffer h) (count h)))"
proof -
  let ?b = "buffer h" and ?n = "size_h h"
  define h1 where "h1 = insert_place h e"
  from inv have len: "length ?b = capacity h" and nle: "?n \<le> capacity h"
    and cs: "count h = 2 * ?n \<or> count h + 1 = 2 * ?n"
    by (auto simp: heap_inv_def)
  have "mset (slots (buffer h1) (count h + 1)) = add_mset e (mset (slots ?b (count h)))"
  proof (cases "count h mod 2 = 0")
    case True
    with cs have c: "count h = 2 * ?n" by presburger
    with nf True have nlt: "?n < capacity h" by (simp add: ih_full_def)
    have h1': "h1 = h\<lparr>buffer := ?b[?n := Node e 0], size_h := ?n + 1, count := count h + 1\<rparr>"
      using True by (simp add: h1_def insert_place_def ih_count_def)
    have sl: "slot (buffer h1) i =
        (if i = 2 * ?n then e else if i = 2 * ?n + 1 then 0 else slot ?b i)" for i
      using nlt len by (simp add: h1' slot_update)
    have "slots (buffer h1) (count h) = slots ?b (count h)"
      by (rule slots_cong) (simp add: sl c)
    then show ?thesis by (simp add: slots_Suc sl c)
  next
    case False
    with cs have c: "count h + 1 = 2 * ?n" by presburger
    then have n1: "1 \<le> ?n" by simp
    define m where "m = ?n - 1"
    have cm: "count h = Suc (2 * m)" and nm: "?n = Suc m" using c n1 by (simp_all add: m_def)
    let ?l = "data0 (?b ! m)"
    have nl: "m < length ?b" using n1 nle len by (simp add: m_def)
    have lsl: "slot ?b (2 * m) = ?l" by (simp add: slot_even)
    show ?thesis
    proof (cases "cmp h ?l e > 0")
      case swap: True
      have h1': "h1 = h\<lparr>buffer := ?b[m := Node e ?l], count := count h + 1\<rparr>"
        using False swap by (simp add: h1_def insert_place_def ih_count_def Let_def m_def)
      have sl: "slot (buffer h1) i =
          (if i = 2 * m then e else if i = 2 * m + 1 then ?l else slot ?b i)" for i
        using nl by (simp add: h1' slot_update)
      have "slots (buffer h1) (2 * m) = slots ?b (2 * m)"
        by (rule slots_cong) (simp add: sl)
      then show ?thesis by (simp add: cm slots_Suc sl lsl)
    next
      case noswap: False
      have h1': "h1 = h\<lparr>buffer := ?b[m := Node ?l e], count := count h + 1\<rparr>"
        using False noswap by (simp add: h1_def insert_place_def ih_count_def Let_def m_def)
      have sl: "slot (buffer h1) i =
          (if i = 2 * m then ?l else if i = 2 * m + 1 then e else slot ?b i)" for i
        using nl by (simp add: h1' slot_update)
      have "slots (buffer h1) (2 * m) = slots ?b (2 * m)"
        by (rule slots_cong) (simp add: sl)
      then show ?thesis by (simp add: cm slots_Suc sl lsl)
    qed
  qed
  then show ?thesis by (simp add: h1_def)
qed

lemma insert_mset:
  assumes inv: "heap_inv h" and ins: "ih_insert ra h e = (True, h')"
  shows "mset (slots (buffer h') (count h')) = add_mset e (mset (slots (buffer h) (count h)))"
proof -
  have step: "mset (slots (buffer (insert_float (insert_place g e) e)) (count g + 1)) =
      add_mset e (mset (slots (buffer g) (count g)))"
    if g: "heap_inv g" "\<not> ih_full g" for g
  proof -
    define h1 where "h1 = insert_place g e"
    obtain pe where f3: "length (buffer h1) = capacity g" and f4: "count h1 = count g + 1"
      and f5: "1 \<le> size_h h1" and f6: "size_h h1 \<le> capacity g"
      and f7: "count h1 = 2 * size_h h1 \<or> count h1 + 1 = 2 * size_h h1"
      using place_facts[OF g h1_def] by metis
    from f3 f6 have "size_h h1 \<le> length (buffer h1)" by simp
    from insert_float_mset[OF f5 this f7, of e] place_mset[OF g, of e]
    show ?thesis by (simp add: h1_def f4[unfolded h1_def])
  qed
  have cnt: "count h' = count h + 1" using insert_inv[OF inv ins] by simp
  show ?thesis
  proof (cases "ih_full h")
    case True
    obtain ok h1 where r: "ih_resize ra h (wrap (ih_capacity h * 4)) = (ok, h1)"
      by (cases "ih_resize ra h (wrap (ih_capacity h * 4))")
    from ins True r have ok: "ok" and h': "h' = insert_float (insert_place h1 e) e"
      by (auto simp: ih_insert_def split: if_splits)
    from r ok have r': "ih_resize ra h (wrap (ih_capacity h * 4)) = (True, h1)" by simp
    from resize_full[OF inv True r'] have inv1: "heap_inv h1" and lt: "size_h h1 < capacity h1"
      and c1: "count h1 = count h"
      and same: "\<forall>i<count h. slot (buffer h1) i = slot (buffer h) i" by blast+
    from lt have nf: "\<not> ih_full h1" by (simp add: ih_full_def)
    have "slots (buffer h1) (count h) = slots (buffer h) (count h)"
      by (rule slots_cong) (simp add: same)
    with step[OF inv1 nf] have "mset (slots (buffer h') (count h + 1)) =
        add_mset e (mset (slots (buffer h) (count h)))"
      by (simp add: h' c1)
    then show ?thesis by (simp only: cnt)
  next
    case False
    with ins have h': "h' = insert_float (insert_place h e) e"
      by (auto simp: ih_insert_def)
    with step[OF inv False] have "mset (slots (buffer h') (count h + 1)) =
        add_mset e (mset (slots (buffer h) (count h)))"
      by simp
    then show ?thesis by (simp only: cnt)
  qed
qed

lemma insert_seq_mset:
  "heap_inv h \<Longrightarrow> insert_seq h ops = Some h' \<Longrightarrow>
   mset (slots (buffer h') (count h')) = mset (slots (buffer h) (count h)) + mset (map snd ops)"
proof (induction ops arbitrary: h)
  case Nil
  then show ?case by simp
next
  case (Cons op ops)
  obtain ra x where op: "op = (ra, x)" by (cases op)
  obtain ok h1 where i: "ih_insert ra h x = (ok, h1)" by (cases "ih_insert ra h x")
  from Cons.prems(2) op i have ok: "ok" and rest: "insert_seq h1 ops = Some h'"
    by (auto split: if_splits bool.splits)
  from i ok have i': "ih_insert ra h x = (True, h1)" by simp
  from insert_inv[OF Cons.prems(1) i'] have inv1: "heap_inv h1" by simp
  from Cons.IH[OF inv1 rest] insert_mset[OF Cons.prems(1) i'] op show ?case by simp
qed

lemma slots_elem: "slots (buffer h) (count h) = map (elem h) [0..<count h]"
  by (simp add: slots_def elem_slot)

text \<open>
  Claim C1. Let \<open>f\<close> be a three-way comparison of a total preorder, and let a heap be
  created by \<^verbatim>\<open>PFX##_new\<close> with a capacity that is a \<^verbatim>\<open>size_t\<close>. After every nonempty
  sequence of calls of \<^verbatim>\<open>PFX##_insert\<close> that all return \<^verbatim>\<open>true\<close>, the heap holds as many
  elements as there were calls, the stored elements are the inserted ones (as a multiset),
  \<^verbatim>\<open>PFX##_min\<close> and \<^verbatim>\<open>PFX##_max\<close> succeed, the value of \<^verbatim>\<open>PFX##_min\<close> compares less
  than or equal to every stored element, and every stored element compares less than or
  equal to the value of \<^verbatim>\<open>PFX##_max\<close>. Since the sequence is arbitrary, this holds after
  each insert.
\<close>

theorem insert_min_max_bounds:
  assumes "cmp_ok f" and "cap < 2 ^ 64"
    and "ih_new mo co cap (Some f) = Some h0"
    and "insert_seq h0 ops = Some h" and "ops \<noteq> []"
  shows "count h = length ops \<and>
    mset (map (elem h) [0..<count h]) = mset (map snd ops) \<and>
    (\<exists>m M. ih_min h = Some m \<and> ih_max h = Some M \<and>
       (\<forall>i<count h. f m (elem h i) \<le> 0 \<and> f (elem h i) M \<le> 0))"
proof -
  from new_inv[OF assms(1,2,3)] have inv0: "heap_inv h0" and c0: "count h0 = 0" by simp_all
  have f0: "cmp h0 = f" using assms(3) by (auto simp: ih_new_def Let_def split: if_splits)
  from insert_seq_inv[OF inv0 assms(4)] c0 f0
  have inv: "heap_inv h" and c: "count h = length ops" and fh: "cmp h = f" by simp_all
  have "slots (buffer h0) (count h0) = []" by (simp add: c0 slots_def)
  with insert_seq_mset[OF inv0 assms(4)]
  have ms: "mset (map (elem h) [0..<count h]) = mset (map snd ops)"
    by (simp only: slots_elem mset.simps empty_neutral)
  from c assms(5) have pos: "0 < count h" by simp
  from inv fh have ok: "cmp_ok f"
    and LO: "\<forall>i<count h. f (slot (buffer h) 0) (slot (buffer h) i) \<le> 0"
    and UP: "2 \<le> count h \<longrightarrow> (\<forall>i<count h. f (slot (buffer h) i) (slot (buffer h) 1) \<le> 0)"
    by (auto simp: heap_inv_def)
  have mn: "ih_min h = Some (slot (buffer h) 0)"
    using pos by (simp add: ih_min_def ih_empty_def slot_def data_def)
  show ?thesis
  proof (cases "count h = 1")
    case True
    then have mx: "ih_max h = Some (slot (buffer h) 0)"
      by (simp add: ih_max_def ih_empty_def ih_count_def slot_def data_def)
    have "\<forall>i<count h. f (slot (buffer h) 0) (elem h i) \<le> 0 \<and> f (elem h i) (slot (buffer h) 0) \<le> 0"
      using True cmp_refl[OF ok] by (simp add: elem_slot)
    with mn mx c ms show ?thesis by blast
  next
    case False
    with pos have two: "2 \<le> count h" by simp
    then have mx: "ih_max h = Some (slot (buffer h) 1)"
      using False by (simp add: ih_max_def ih_empty_def ih_count_def slot_def data_def)
    have "\<forall>i<count h. f (slot (buffer h) 0) (elem h i) \<le> 0 \<and> f (elem h i) (slot (buffer h) 1) \<le> 0"
      using LO UP two by (simp add: elem_slot)
    with mn mx c ms show ?thesis by blast
  qed
qed

text \<open>
  The premises hold for the comparison \<^verbatim>\<open>intcmp\<close> and the heap created with capacity 2,
  which grows at the third insert.
\<close>

theorem insert_min_max_bounds_witness:
  "cmp_ok intcmp \<and> (2::nat) < 2 ^ 64 \<and>
   ih_new True True 2 (Some intcmp) = Some heap_empty \<and>
   insert_seq heap_empty
     [(None, 10), (None, 20), (realloc_ok (Node 7 7), 30)] = Some heap_10_30_20 \<and>
   count heap_10_30_20 = 3 \<and>
   ih_min heap_10_30_20 = Some 10 \<and> ih_max heap_10_30_20 = Some 30 \<and>
   intcmp 10 (elem heap_10_30_20 0) \<le> 0 \<and> intcmp (elem heap_10_30_20 0) 30 \<le> 0 \<and>
   intcmp 10 (elem heap_10_30_20 1) \<le> 0 \<and> intcmp (elem heap_10_30_20 1) 30 \<le> 0 \<and>
   intcmp 10 (elem heap_10_30_20 2) \<le> 0 \<and> intcmp (elem heap_10_30_20 2) 30 \<le> 0"
proof -
  have ok: "cmp_ok intcmp" by (auto simp: cmp_ok_def intcmp_def)
  have cap: "(2::nat) < 2 ^ 64" by simp
  have seq: "insert_seq heap_empty
     [(None, 10), (None, 20), (realloc_ok (Node 7 7), 30)] = Some heap_10_30_20"
    by (simp add: heap_empty_def heap_10_30_20_def insert_eval list_eval)
  have ne: "[(None, 10), (None, 20), (realloc_ok (Node 7 7), 30)] \<noteq>
      ([] :: ((nat \<Rightarrow> int node) option \<times> int) list)"
    by simp
  have mn: "ih_min heap_10_30_20 = Some 10" and mx: "ih_max heap_10_30_20 = Some 30"
    by (simp_all add: heap_10_30_20_def ih_min_def ih_max_def ih_empty_def ih_count_def)
  from insert_min_max_bounds [OF ok cap heap_empty_reachable seq ne]
  obtain m M where c: "count heap_10_30_20 = 3"
    and m: "ih_min heap_10_30_20 = Some m" and M: "ih_max heap_10_30_20 = Some M"
    and b: "\<forall>i<count heap_10_30_20.
              intcmp m (elem heap_10_30_20 i) \<le> 0 \<and> intcmp (elem heap_10_30_20 i) M \<le> 0"
    by auto
  from m mn M mx have "m = 10" "M = 30" by simp_all
  with b c have "intcmp 10 (elem heap_10_30_20 0) \<le> 0 \<and> intcmp (elem heap_10_30_20 0) 30 \<le> 0"
    "intcmp 10 (elem heap_10_30_20 1) \<le> 0 \<and> intcmp (elem heap_10_30_20 1) 30 \<le> 0"
    "intcmp 10 (elem heap_10_30_20 2) \<le> 0 \<and> intcmp (elem heap_10_30_20 2) 30 \<le> 0"
    by simp_all
  with ok cap heap_empty_reachable seq c mn mx show ?thesis by simp
qed

end
